theory Spec2Isabelle
  imports Main "HOL-Library.Sublist" "HOL-Library.Multiset"
begin

section \<open>Python values and the operators the script applies to them\<close>

text \<open>
  The script works on what \<^verbatim>\<open>response.json()\<close> returns: nested dicts, lists,
  strings, numbers, booleans and None. A dict is an association list read with
  \<^const>\<open>map_of\<close> (a parsed JSON object has one value per key; with several
  entries for a key the first one is the value). Python's None is \<open>JNull\<close>. A JSON
  number is an integer here: the field mask of the request asks for string fields only, and
  the script does nothing with a number but test it for zero and pass it on.
\<close>

datatype json =
    JNull
  | JBool bool
  | JInt int
  | JStr string
  | JList "json list"
  | JDict "(string \<times> json) list"

text \<open>
  The exceptions that occur: the three the operators below raise, \<open>SystemError\<close> for a
  reference to no object (which no Python program holds), and any other exception, by the name
  of its class.
\<close>

datatype py_error = TypeError | AttributeError | KeyError | SystemError | OtherError string

text \<open>Sequencing of expressions that may raise: the first exception is the result.\<close>

definition pbind :: "py_error + 'a \<Rightarrow> ('a \<Rightarrow> py_error + 'b) \<Rightarrow> py_error + 'b" where
  "pbind m f = (case m of Inl e \<Rightarrow> Inl e | Inr x \<Rightarrow> f x)"

text \<open>\<^verbatim>\<open>bool(x)\<close>, as \<^verbatim>\<open>if x\<close>, \<^verbatim>\<open>not x\<close> and \<^verbatim>\<open>x and y\<close> test it.\<close>

fun py_truthy :: "json \<Rightarrow> bool" where
  "py_truthy JNull = False"
| "py_truthy (JBool b) = b"
| "py_truthy (JInt i) = (i \<noteq> 0)"
| "py_truthy (JStr s) = (s \<noteq> [])"
| "py_truthy (JList xs) = (xs \<noteq> [])"
| "py_truthy (JDict d) = (d \<noteq> [])"

text \<open>\<^verbatim>\<open>sub in s\<close> on two strings: \<open>sub\<close> occurs in \<open>s\<close> as a contiguous block.\<close>

fun str_contains :: "string \<Rightarrow> string \<Rightarrow> bool" where
  "str_contains sub [] = (sub = [])"
| "str_contains sub (c # cs) = (prefix sub (c # cs) \<or> str_contains sub cs)"

text \<open>
  \<^verbatim>\<open>k in x\<close> for a string literal \<open>k\<close>: key test on a dict, membership on a
  list, substring test on a string, TypeError on None, a bool or a number.
\<close>

fun py_contains :: "string \<Rightarrow> json \<Rightarrow> py_error + bool" where
  "py_contains k (JDict d) = Inr (map_of d k \<noteq> None)"
| "py_contains k (JList xs) = Inr (JStr k \<in> set xs)"
| "py_contains k (JStr s) = Inr (str_contains k s)"
| "py_contains k JNull = Inl TypeError"
| "py_contains k (JBool b) = Inl TypeError"
| "py_contains k (JInt i) = Inl TypeError"

text \<open>
  \<^verbatim>\<open>x[k]\<close> for a string literal \<open>k\<close>: KeyError on a dict without the key,
  TypeError on everything that is not a dict (a list or a string wants an integer index,
  the rest is not subscriptable).
\<close>

fun py_subscript :: "json \<Rightarrow> string \<Rightarrow> py_error + json" where
  "py_subscript (JDict d) k = (case map_of d k of None \<Rightarrow> Inl KeyError | Some v \<Rightarrow> Inr v)"
| "py_subscript JNull k = Inl TypeError"
| "py_subscript (JBool b) k = Inl TypeError"
| "py_subscript (JInt i) k = Inl TypeError"
| "py_subscript (JStr s) k = Inl TypeError"
| "py_subscript (JList xs) k = Inl TypeError"

text \<open>\<^verbatim>\<open>x.get(k, default)\<close>: only a dict has the method.\<close>

fun py_get :: "json \<Rightarrow> string \<Rightarrow> json \<Rightarrow> py_error + json" where
  "py_get (JDict d) k dflt = Inr (case map_of d k of None \<Rightarrow> dflt | Some v \<Rightarrow> v)"
| "py_get JNull k dflt = Inl AttributeError"
| "py_get (JBool b) k dflt = Inl AttributeError"
| "py_get (JInt i) k dflt = Inl AttributeError"
| "py_get (JStr s) k dflt = Inl AttributeError"
| "py_get (JList xs) k dflt = Inl AttributeError"

text \<open>
  \<^verbatim>\<open>for place in x\<close>: the elements of a list, the keys of a dict, the characters of
  a string (each a string of length one); TypeError on None, a bool or a number.
\<close>

fun py_iter :: "json \<Rightarrow> py_error + json list" where
  "py_iter (JList xs) = Inr xs"
| "py_iter (JDict d) = Inr (map (\<lambda>kv. JStr (fst kv)) d)"
| "py_iter (JStr s) = Inr (map (\<lambda>c. JStr [c]) s)"
| "py_iter JNull = Inl TypeError"
| "py_iter (JBool b) = Inl TypeError"
| "py_iter (JInt i) = Inl TypeError"

text \<open>\<^verbatim>\<open>len(x)\<close>.\<close>

fun py_len :: "json \<Rightarrow> py_error + nat" where
  "py_len (JList xs) = Inr (length xs)"
| "py_len (JDict d) = Inr (length d)"
| "py_len (JStr s) = Inr (length s)"
| "py_len JNull = Inl TypeError"
| "py_len (JBool b) = Inl TypeError"
| "py_len (JInt i) = Inl TypeError"


section \<open>process_places\<close>

text \<open>
  Line 76: \<^verbatim>\<open>has_website = 'websiteUri' in place and place['websiteUri']\<close>.
  Python's \<open>and\<close> returns its first operand when that is false, its second otherwise, so
  the variable holds False or the value stored under the key.
\<close>

definition has_website_value :: "json \<Rightarrow> py_error + json" where
  "has_website_value place =
     pbind (py_contains ''websiteUri'' place)
       (\<lambda>present. if present then py_subscript place ''websiteUri'' else Inr (JBool False))"

text \<open>
  Lines 76 to 84, the body of the loop: the dict built for one place. The values of the dict
  literal are evaluated in the order they are written.
\<close>

definition process_place :: "json \<Rightarrow> py_error + json" where
  "process_place place =
     pbind (has_website_value place) (\<lambda>has_website.
     pbind (py_get place ''displayName'' (JDict [])) (\<lambda>display_name.
     pbind (py_get display_name ''text'' (JStr ''Unknown'')) (\<lambda>name.
     pbind (py_get place ''formattedAddress'' (JStr ''N/A'')) (\<lambda>address.
     pbind (py_get place ''priceLevel'' (JStr ''N/A'')) (\<lambda>price_level.
     pbind (if py_truthy has_website then py_get place ''websiteUri'' (JStr ''N/A'')
            else Inr (JStr ''N/A'')) (\<lambda>website.
     Inr (JDict
       [(''Name'', name),
        (''Address'', address),
        (''Price Level'', price_level),
        (''Has Website'', JStr (if py_truthy has_website then ''Yes'' else ''No'')),
        (''Website'', website)])))))))"

text \<open>
  Lines 72 to 87: the loop appends one dict per place to \<open>processed_places\<close>, which
  starts empty; an exception in the body leaves the function.
\<close>

fun process_loop :: "json list \<Rightarrow> json list \<Rightarrow> py_error + json list" where
  "process_loop [] processed_places = Inr processed_places"
| "process_loop (place # rest) processed_places =
     (case process_place place of
        Inl e \<Rightarrow> Inl e
      | Inr processed_place \<Rightarrow> process_loop rest (processed_places @ [processed_place]))"

definition process_places :: "json \<Rightarrow> py_error + json list" where
  "process_places places = pbind (py_iter places) (\<lambda>items. process_loop items [])"


section \<open>The ranking sort\<close>

text \<open>Line 151, the key function: \<^verbatim>\<open>lambda x: x['Has Website'] == 'Yes'\<close>.\<close>

definition sort_key_fn :: "json \<Rightarrow> py_error + bool" where
  "sort_key_fn x = pbind (py_subscript x ''Has Website'') (\<lambda>v. Inr (v = JStr ''Yes''))"

text \<open>
  \<^verbatim>\<open>list.sort(key=f)\<close> computes the key of every element first, in list order, and
  an exception raised by a key leaves the list as it was. It then sorts by the keys alone,
  ascending, and is stable; the keys here are booleans, False below True. A list has exactly
  one stable sorting under a linear order of the keys, so the stable insertion sort
  \<^const>\<open>sort_key\<close> of the list library gives the list Python's sort gives.
\<close>

fun keyed :: "(json \<Rightarrow> py_error + bool) \<Rightarrow> json list \<Rightarrow> py_error + (bool \<times> json) list" where
  "keyed f [] = Inr []"
| "keyed f (x # xs) =
     (case f x of
        Inl e \<Rightarrow> Inl e
      | Inr k \<Rightarrow> (case keyed f xs of Inl e \<Rightarrow> Inl e | Inr kxs \<Rightarrow> Inr ((k, x) # kxs)))"

definition py_sort :: "(json \<Rightarrow> py_error + bool) \<Rightarrow> json list \<Rightarrow> py_error + json list" where
  "py_sort f xs = pbind (keyed f xs) (\<lambda>kxs. Inr (map snd (sort_key fst kxs)))"

text \<open>
  Lines 148 and 151 together, as a function of the value bound to \<open>places\<close>: the
  normalizer and ranker of the specification.
\<close>

definition normalize_and_rank :: "json \<Rightarrow> py_error + json list" where
  "normalize_and_rank places = pbind (process_places places) (py_sort sort_key_fn)"


section \<open>Lists and dicts as objects\<close>

text \<open>
  In Python a list or a dict is an object, and a variable or a field holds a reference to it:
  \<^verbatim>\<open>processed_places.append(...)\<close> and \<^verbatim>\<open>processed_places.sort(...)\<close> change an
  object that everything holding the reference sees. Here the store is the list of the
  objects made so far, a reference is an index into it, and a new object is put at the end.
  The functions of this section are lines 70 to 87 and line 151 once more, on values that hold
  references, with every object they make or change written out.
\<close>

type_synonym addr = nat

datatype val = VNone | VBool bool | VInt int | VStr string | VRef addr

datatype obj = OList "val list" | ODict "(string \<times> val) list"

type_synonym store = "obj list"

definition deref :: "store \<Rightarrow> addr \<Rightarrow> py_error + obj" where
  "deref h a = (if a < length h then Inr (h ! a) else Inl SystemError)"

text \<open>A new object: \<^verbatim>\<open>[]\<close>, \<^verbatim>\<open>{}\<close> or a dict literal.\<close>

definition alloc :: "obj \<Rightarrow> store \<Rightarrow> addr \<times> store" where
  "alloc ob h = (length h, h @ [ob])"

text \<open>The operators of the first section, on references.\<close>

fun ref_truthy :: "store \<Rightarrow> val \<Rightarrow> py_error + bool" where
  "ref_truthy h VNone = Inr False"
| "ref_truthy h (VBool b) = Inr b"
| "ref_truthy h (VInt i) = Inr (i \<noteq> 0)"
| "ref_truthy h (VStr s) = Inr (s \<noteq> [])"
| "ref_truthy h (VRef a) =
     pbind (deref h a) (\<lambda>ob. Inr (case ob of OList xs \<Rightarrow> xs \<noteq> [] | ODict d \<Rightarrow> d \<noteq> []))"

fun ref_contains :: "store \<Rightarrow> string \<Rightarrow> val \<Rightarrow> py_error + bool" where
  "ref_contains h k (VRef a) =
     pbind (deref h a)
       (\<lambda>ob. Inr (case ob of ODict d \<Rightarrow> map_of d k \<noteq> None | OList xs \<Rightarrow> VStr k \<in> set xs))"
| "ref_contains h k (VStr s) = Inr (str_contains k s)"
| "ref_contains h k VNone = Inl TypeError"
| "ref_contains h k (VBool b) = Inl TypeError"
| "ref_contains h k (VInt i) = Inl TypeError"

fun ref_subscript :: "store \<Rightarrow> val \<Rightarrow> string \<Rightarrow> py_error + val" where
  "ref_subscript h (VRef a) k =
     pbind (deref h a)
       (\<lambda>ob. case ob of
          ODict d \<Rightarrow> (case map_of d k of None \<Rightarrow> Inl KeyError | Some v \<Rightarrow> Inr v)
        | OList xs \<Rightarrow> Inl TypeError)"
| "ref_subscript h VNone k = Inl TypeError"
| "ref_subscript h (VBool b) k = Inl TypeError"
| "ref_subscript h (VInt i) k = Inl TypeError"
| "ref_subscript h (VStr s) k = Inl TypeError"

fun ref_get :: "store \<Rightarrow> val \<Rightarrow> string \<Rightarrow> val \<Rightarrow> py_error + val" where
  "ref_get h (VRef a) k dflt =
     pbind (deref h a)
       (\<lambda>ob. case ob of
          ODict d \<Rightarrow> Inr (case map_of d k of None \<Rightarrow> dflt | Some v \<Rightarrow> v)
        | OList xs \<Rightarrow> Inl AttributeError)"
| "ref_get h VNone k dflt = Inl AttributeError"
| "ref_get h (VBool b) k dflt = Inl AttributeError"
| "ref_get h (VInt i) k dflt = Inl AttributeError"
| "ref_get h (VStr s) k dflt = Inl AttributeError"

text \<open>Line 76.\<close>

definition ref_has_website_value :: "store \<Rightarrow> val \<Rightarrow> py_error + val" where
  "ref_has_website_value h place =
     pbind (ref_contains h ''websiteUri'' place)
       (\<lambda>present. if present then ref_subscript h place ''websiteUri'' else Inr (VBool False))"

text \<open>
  Lines 76 to 84. The default \<^verbatim>\<open>{}\<close> of line 79 is a new dict each time, and the dict
  literal is a new dict; no object that was there is written. The two tests of
  \<open>has_website\<close> (lines 82 and 83) read the same store, so one test stands for both.
\<close>

definition ref_process_place :: "store \<Rightarrow> val \<Rightarrow> py_error + val \<times> store" where
  "ref_process_place h place =
     pbind (ref_has_website_value h place) (\<lambda>has_website.
     case alloc (ODict []) h of (fresh, h1) \<Rightarrow>
     pbind (ref_get h1 place ''displayName'' (VRef fresh)) (\<lambda>display_name.
     pbind (ref_get h1 display_name ''text'' (VStr ''Unknown'')) (\<lambda>name.
     pbind (ref_get h1 place ''formattedAddress'' (VStr ''N/A'')) (\<lambda>address.
     pbind (ref_get h1 place ''priceLevel'' (VStr ''N/A'')) (\<lambda>price_level.
     pbind (ref_truthy h1 has_website) (\<lambda>yes.
     pbind (if yes then ref_get h1 place ''websiteUri'' (VStr ''N/A'')
            else Inr (VStr ''N/A'')) (\<lambda>website.
     case alloc (ODict
            [(''Name'', name),
             (''Address'', address),
             (''Price Level'', price_level),
             (''Has Website'', VStr (if yes then ''Yes'' else ''No'')),
             (''Website'', website)]) h1 of
       (processed_place, h2) \<Rightarrow> Inr (VRef processed_place, h2))))))))"

text \<open>Line 85: \<^verbatim>\<open>xs.append(x)\<close> writes the list object \<open>xs\<close> refers to.\<close>

fun ref_append :: "store \<Rightarrow> val \<Rightarrow> val \<Rightarrow> py_error + store" where
  "ref_append h (VRef a) x =
     pbind (deref h a)
       (\<lambda>ob. case ob of
          OList items \<Rightarrow> Inr (h[a := OList (items @ [x])])
        | ODict d \<Rightarrow> Inl AttributeError)"
| "ref_append h VNone x = Inl AttributeError"
| "ref_append h (VBool b) x = Inl AttributeError"
| "ref_append h (VInt i) x = Inl AttributeError"
| "ref_append h (VStr s) x = Inl AttributeError"

text \<open>Lines 75 to 85, one turn of the loop.\<close>

definition ref_loop_body :: "store \<Rightarrow> val \<Rightarrow> val \<Rightarrow> py_error + store" where
  "ref_loop_body h place processed_places =
     pbind (ref_process_place h place)
       (\<lambda>(processed_place, h'). ref_append h' processed_places processed_place)"

text \<open>
  Line 74 over a list: the iterator holds the list and an index, and every turn reads the list
  as it is then, so a loop that appends to the list it runs over does not end. The loop is
  therefore a partial function, None when it does not return.
\<close>

partial_function (option) ref_list_loop ::
  "addr \<Rightarrow> nat \<Rightarrow> val \<Rightarrow> store \<Rightarrow> (py_error + store) option" where
  "ref_list_loop a i processed_places h =
     (case deref h a of
        Inl e \<Rightarrow> Some (Inl e)
      | Inr (ODict d) \<Rightarrow> Some (Inl SystemError)
      | Inr (OList items) \<Rightarrow>
          if i < length items then
            (case ref_loop_body h (items ! i) processed_places of
               Inl e \<Rightarrow> Some (Inl e)
             | Inr h' \<Rightarrow> ref_list_loop a (i + 1) processed_places h')
          else Some (Inr h))"

declare ref_list_loop.simps [code]

text \<open>
  Line 74 over the keys of a dict or the characters of a string. The items are strings, on
  which the body raises in its first turn, so the items are those at the start of the loop.
\<close>

fun ref_items_loop :: "val list \<Rightarrow> val \<Rightarrow> store \<Rightarrow> py_error + store" where
  "ref_items_loop [] processed_places h = Inr h"
| "ref_items_loop (place # rest) processed_places h =
     (case ref_loop_body h place processed_places of
        Inl e \<Rightarrow> Inl e
      | Inr h' \<Rightarrow> ref_items_loop rest processed_places h')"

text \<open>What a function returns with the store it leaves.\<close>

definition returning :: "val \<Rightarrow> py_error + store \<Rightarrow> py_error + val \<times> store" where
  "returning v r = (case r of Inl e \<Rightarrow> Inl e | Inr h \<Rightarrow> Inr (v, h))"

text \<open>Lines 70 to 87: \<open>processed_places\<close> is a new list, and the reference to it is returned.\<close>

definition ref_process_places :: "store \<Rightarrow> val \<Rightarrow> (py_error + val \<times> store) option" where
  "ref_process_places h places =
     (case alloc (OList []) h of (processed_places, h0) \<Rightarrow>
        (case places of
           VRef a \<Rightarrow>
             (case deref h0 a of
                Inl e \<Rightarrow> Some (Inl e)
              | Inr (OList items) \<Rightarrow>
                  map_option (returning (VRef processed_places))
                    (ref_list_loop a 0 (VRef processed_places) h0)
              | Inr (ODict d) \<Rightarrow>
                  Some (returning (VRef processed_places)
                    (ref_items_loop (map (\<lambda>kv. VStr (fst kv)) d) (VRef processed_places) h0)))
         | VStr s \<Rightarrow>
             Some (returning (VRef processed_places)
               (ref_items_loop (map (\<lambda>c. VStr [c]) s) (VRef processed_places) h0))
         | VNone \<Rightarrow> Some (Inl TypeError)
         | VBool b \<Rightarrow> Some (Inl TypeError)
         | VInt i \<Rightarrow> Some (Inl TypeError)))"

text \<open>Line 151: the key function, the keys, and the sort, which writes the list object.\<close>

definition ref_sort_key_fn :: "store \<Rightarrow> val \<Rightarrow> py_error + bool" where
  "ref_sort_key_fn h x = pbind (ref_subscript h x ''Has Website'') (\<lambda>v. Inr (v = VStr ''Yes''))"

fun ref_keyed :: "store \<Rightarrow> val list \<Rightarrow> py_error + (bool \<times> val) list" where
  "ref_keyed h [] = Inr []"
| "ref_keyed h (x # xs) =
     (case ref_sort_key_fn h x of
        Inl e \<Rightarrow> Inl e
      | Inr k \<Rightarrow> (case ref_keyed h xs of Inl e \<Rightarrow> Inl e | Inr kxs \<Rightarrow> Inr ((k, x) # kxs)))"

fun ref_sort :: "store \<Rightarrow> val \<Rightarrow> py_error + store" where
  "ref_sort h (VRef a) =
     pbind (deref h a)
       (\<lambda>ob. case ob of
          OList items \<Rightarrow>
            pbind (ref_keyed h items) (\<lambda>kxs. Inr (h[a := OList (map snd (sort_key fst kxs))]))
        | ODict d \<Rightarrow> Inl AttributeError)"
| "ref_sort h VNone = Inl AttributeError"
| "ref_sort h (VBool b) = Inl AttributeError"
| "ref_sort h (VInt i) = Inl AttributeError"
| "ref_sort h (VStr s) = Inl AttributeError"

text \<open>Lines 148 and 151 together: the reference bound to \<open>processed_places\<close> and the store.\<close>

definition ref_normalize_and_rank :: "store \<Rightarrow> val \<Rightarrow> (py_error + val \<times> store) option" where
  "ref_normalize_and_rank h places =
     (case ref_process_places h places of
        None \<Rightarrow> None
      | Some (Inl e) \<Rightarrow> Some (Inl e)
      | Some (Inr (processed_places, h')) \<Rightarrow>
          Some (returning processed_places (ref_sort h' processed_places)))"

text \<open>
  \<open>represents A h v j\<close>: in the store \<open>h\<close> the value \<open>v\<close> is the JSON value \<open>j\<close>, through
  objects at addresses in \<open>A\<close> only.
\<close>

fun represents :: "addr set \<Rightarrow> store \<Rightarrow> val \<Rightarrow> json \<Rightarrow> bool" where
  "represents A h v JNull = (v = VNone)"
| "represents A h v (JBool b) = (v = VBool b)"
| "represents A h v (JInt i) = (v = VInt i)"
| "represents A h v (JStr s) = (v = VStr s)"
| "represents A h v (JList js) =
     (case v of
        VRef a \<Rightarrow> a \<in> A \<and> a < length h \<and>
          (case h ! a of OList vs \<Rightarrow> list_all2 (represents A h) vs js | ODict kvs \<Rightarrow> False)
      | _ \<Rightarrow> False)"
| "represents A h v (JDict kjs) =
     (case v of
        VRef a \<Rightarrow> a \<in> A \<and> a < length h \<and>
          (case h ! a of
             ODict kvs \<Rightarrow>
               list_all2 (\<lambda>kv kj. fst kv = fst kj \<and> represents A h (snd kv) (snd kj)) kvs kjs
           | OList vs \<Rightarrow> False)
      | _ \<Rightarrow> False)"

declare represents.simps(5) [simp del] represents.simps(6) [simp del]

text \<open>
  \<open>extends_except p h h'\<close>: the store \<open>h'\<close> has every object of \<open>h\<close> as it was, but
  possibly the one at \<open>p\<close>, and may have more.
\<close>

definition extends_except :: "addr \<Rightarrow> store \<Rightarrow> store \<Rightarrow> bool" where
  "extends_except p h h' \<longleftrightarrow> length h \<le> length h' \<and> (\<forall>b<length h. b \<noteq> p \<longrightarrow> h' ! b = h ! b)"

text \<open>
  \<open>holds_rows p h rows\<close>: the object at \<open>p\<close> is a list of references whose objects are
  the rows, none of them reached through \<open>p\<close>.
\<close>

definition holds_rows :: "addr \<Rightarrow> store \<Rightarrow> json list \<Rightarrow> bool" where
  "holds_rows p h rows \<longleftrightarrow>
     p < length h \<and> (\<exists>rs. h ! p = OList rs \<and> list_all2 (represents (- {p}) h) rs rows)"


section \<open>search_places\<close>

text \<open>\<^verbatim>\<open>str(n)\<close> of an integer, as the f-strings of the script format one: decimal digits, with a minus sign below zero.\<close>

definition digit_char :: "nat \<Rightarrow> char" where
  "digit_char d = char_of (48 + d)"

function str_nat :: "nat \<Rightarrow> string" where
  "str_nat n = (if n < 10 then [digit_char n] else str_nat (n div 10) @ [digit_char (n mod 10)])"
  by pat_completeness auto
termination
  by (relation "measure (\<lambda>n. n)") auto

declare str_nat.simps [simp del]

definition str_int :: "int \<Rightarrow> string" where
  "str_int i = (if i < 0 then CHR ''-'' # str_nat (nat (- i)) else str_nat (nat i))"

text \<open>
  Reading a numeral back, to show that \<open>str_int\<close> loses nothing: the value of a string of
  decimal digits, and of one with an optional minus sign in front.
\<close>

definition digits_value :: "string \<Rightarrow> nat" where
  "digits_value s = foldl (\<lambda>acc c. 10 * acc + (of_char c - 48)) 0 s"

definition int_of_str :: "string \<Rightarrow> int" where
  "int_of_str s =
     (case s of
        [] \<Rightarrow> 0
      | c # cs \<Rightarrow> if c = CHR ''-'' then - int (digits_value cs) else int (digits_value s))"

text \<open>
  The call \<^verbatim>\<open>requests.post(url, headers=headers, json=data)\<close> and what comes back
  belong to the requests library and the network. A request is the three arguments of the
  call. The call returns a response, raises a \<open>RequestException\<close> (connection, DNS,
  timeout), of which the script reads \<^verbatim>\<open>str(e)\<close>, or raises an exception of another
  class (\<open>UnicodeEncodeError\<close> for an API key that is not latin-1, for one). Of a response
  the script reads \<open>status_code\<close>, \<open>text\<close> and \<open>json()\<close>; \<open>json()\<close> returns the
  decoded body, raises \<open>requests.exceptions.JSONDecodeError\<close>, which is a
  \<open>RequestException\<close> and is read through \<open>str\<close>, or raises an exception of another class
  (\<open>ValueError\<close> for an integer of more digits than Python converts, \<open>RecursionError\<close>
  for a body nested too deep).
\<close>

record request =
  req_url :: string
  req_headers :: "(string \<times> string) list"
  req_json :: json

datatype json_outcome = Decoded json | JSONDecodeError string | DecodeRaised py_error

record response =
  status_code :: int
  response_text :: string
  response_json :: json_outcome

datatype post_outcome = Returned response | RequestException string | Raised py_error

type_synonym network = "request \<Rightarrow> post_outcome"

definition url :: string where
  "url = ''https://places.googleapis.com/v1/places:searchText''"

definition newline :: string where
  "newline = [CHR 0x0A]"

text \<open>Lines 47 to 55: the headers and the body of the one request the function sends.\<close>

definition places_request :: "string \<Rightarrow> string \<Rightarrow> request" where
  "places_request query api_key =
     (let headers =
            [(''Content-Type'', ''application/json''),
             (''X-Goog-Api-Key'', api_key),
             (''X-Goog-FieldMask'',
              ''places.displayName,places.formattedAddress,places.priceLevel,places.websiteUri'')];
          data = JDict [(''textQuery'', JStr query)]
      in \<lparr>req_url = url, req_headers = headers, req_json = data\<rparr>)"

text \<open>Line 64: the message for a status other than 200.\<close>

definition error_msg :: "int \<Rightarrow> string \<Rightarrow> string" where
  "error_msg status body =
     ''Request failed with status code: '' @ str_int status @ newline @ ''Error: '' @ body"

text \<open>Line 68: the message for a \<open>RequestException\<close>.\<close>

definition exception_msg :: "string \<Rightarrow> string" where
  "exception_msg e = ''An error occurred: '' @ e"

text \<open>
  Lines 44 to 68. Line 67 catches \<open>RequestException\<close> and nothing else: an exception of
  another class leaves the function (\<open>Inl\<close>). Otherwise the function returns the pair
  \<open>(result, error)\<close>; \<open>None\<close> is \<open>JNull\<close> in the first component and \<open>None\<close> in
  the second. The last argument and the second result are the calls of \<open>requests.post\<close>
  made so far, the only effect of the function.
\<close>

definition search_places ::
  "network \<Rightarrow> string \<Rightarrow> string \<Rightarrow> request list
     \<Rightarrow> (py_error + json \<times> string option) \<times> request list" where
  "search_places net query api_key posts =
     (let req = places_request query api_key;
          posts' = posts @ [req]
      in case net req of
           Raised e \<Rightarrow> (Inl e, posts')
         | RequestException e \<Rightarrow> (Inr (JNull, Some (exception_msg e)), posts')
         | Returned response \<Rightarrow>
             if status_code response = 200 then
               (case response_json response of
                  Decoded result \<Rightarrow> (Inr (result, None), posts')
                | JSONDecodeError e \<Rightarrow> (Inr (JNull, Some (exception_msg e)), posts')
                | DecodeRaised e \<Rightarrow> (Inl e, posts'))
             else
               (Inr (JNull, Some (error_msg (status_code response) (response_text response))),
                posts'))"

text \<open>A network that answers every request the same way.\<close>

definition const_network :: "post_outcome \<Rightarrow> network" where
  "const_network outcome req = outcome"


section \<open>The search handler of the page\<close>

text \<open>
  Lines 130 to 198, the block under \<^verbatim>\<open>if search_clicked:\<close>; an exception that
  leaves \<open>search_places\<close> or a later step leaves the block. The state is what the
  block reads and writes: the calls of \<open>requests.post\<close> made, the widgets rendered, and the
  variables \<open>result\<close>, \<open>error\<close>, \<open>places\<close> and \<open>processed_places\<close>. Lines 153 to
  193 only display \<open>processed_places\<close> and \<open>result\<close> (cards, table, CSV download, raw
  JSON); they are the one widget \<open>StResults\<close>. The check marks of the messages are their
  UTF-8 bytes.
\<close>

datatype widget =
    StError string
  | StWarning string
  | StSuccess string
  | StResults "json list" json

record script =
  posts :: "request list"
  rendered :: "widget list"
  result :: json
  error :: "string option"
  places :: json
  processed_places :: "json list"

definition render :: "widget \<Rightarrow> script \<Rightarrow> script" where
  "render w s = s\<lparr>rendered := rendered s @ [w]\<rparr>"

definition cross_mark :: string where
  "cross_mark = [CHR 0xE2, CHR 0x9D, CHR 0x8C]"

definition check_mark :: string where
  "check_mark = [CHR 0xE2, CHR 0x9C, CHR 0x85]"

text \<open>Line 148: \<^verbatim>\<open>processed_places = process_places(places)\<close>.\<close>

definition assign_processed_places :: "script \<Rightarrow> py_error + script" where
  "assign_processed_places s =
     pbind (process_places (places s)) (\<lambda>pp. Inr (s\<lparr>processed_places := pp\<rparr>))"

text \<open>Line 151: \<^verbatim>\<open>processed_places.sort(key=...)\<close>, in place.\<close>

definition sort_processed_places :: "script \<Rightarrow> py_error + script" where
  "sort_processed_places s =
     pbind (py_sort sort_key_fn (processed_places s)) (\<lambda>pp. Inr (s\<lparr>processed_places := pp\<rparr>))"

definition normalize_and_rank_stmts :: "script \<Rightarrow> py_error + script" where
  "normalize_and_rank_stmts s = pbind (assign_processed_places s) sort_processed_places"

text \<open>\<^verbatim>\<open>if error:\<close> on a value that is None or a string.\<close>

fun error_truthy :: "string option \<Rightarrow> bool" where
  "error_truthy None = False"
| "error_truthy (Some msg) = (msg \<noteq> [])"

text \<open>\<^verbatim>\<open>{error}\<close> in an f-string, on the same values.\<close>

fun error_str :: "string option \<Rightarrow> string" where
  "error_str None = ''None''"
| "error_str (Some msg) = msg"

definition search_clicked_handler ::
  "network \<Rightarrow> string \<Rightarrow> string \<Rightarrow> script \<Rightarrow> py_error + script" where
  "search_clicked_handler net search_query api_key s =
     (if search_query = [] then Inr (render (StError ''Please enter a search query'') s)
      else if api_key = [] then
        Inr (render (StError ''Please provide your Google Places API key in the settings above'') s)
      else
        (case search_places net search_query api_key (posts s) of
           (Inl e, posts') \<Rightarrow> Inl e
         | (Inr (res, err), posts') \<Rightarrow>
           let s1 = s\<lparr>posts := posts', result := res, error := err\<rparr> in
           if error_truthy err then
             Inr (render (StError (cross_mark @ '' '' @ error_str err)) s1)
           else
             pbind (if py_truthy res then py_contains ''places'' res else Inr False) (\<lambda>has_places.
             if has_places then
               pbind (py_subscript res ''places'') (\<lambda>pl.
               let s2 = s1\<lparr>places := pl\<rparr> in
               if py_truthy pl then
                 pbind (py_len pl) (\<lambda>n.
                 let s3 = render (StSuccess (check_mark @ '' Found '' @ str_int (int n)
                                   @ '' result(s) for '' @ [CHR 0x27] @ search_query @ [CHR 0x27])) s2
                 in pbind (normalize_and_rank_stmts s3) (\<lambda>s4.
                    Inr (render (StResults (processed_places s4) (result s4)) s4)))
               else
                 Inr (render (StWarning (''No results found for '' @ [CHR 0x27] @ search_query
                                          @ [CHR 0x27])) s2))
             else Inr (render (StWarning ''No results returned from the API'') s1))))"


section \<open>The records of the specification\<close>

text \<open>The value of a field of a dict, None when the field is missing or the value is no dict.\<close>

fun field :: "string \<Rightarrow> json \<Rightarrow> json option" where
  "field k (JDict d) = map_of d k"
| "field k JNull = None"
| "field k (JBool b) = None"
| "field k (JInt i) = None"
| "field k (JStr s) = None"
| "field k (JList xs) = None"

fun optional_string :: "json option \<Rightarrow> bool" where
  "optional_string None = True"
| "optional_string (Some (JStr s)) = True"
| "optional_string (Some JNull) = False"
| "optional_string (Some (JBool b)) = False"
| "optional_string (Some (JInt i)) = False"
| "optional_string (Some (JList xs)) = False"
| "optional_string (Some (JDict d)) = False"

fun optional_display_name :: "json option \<Rightarrow> bool" where
  "optional_display_name None = True"
| "optional_display_name (Some (JDict d)) = optional_string (map_of d ''text'')"
| "optional_display_name (Some JNull) = False"
| "optional_display_name (Some (JBool b)) = False"
| "optional_display_name (Some (JInt i)) = False"
| "optional_display_name (Some (JStr s)) = False"
| "optional_display_name (Some (JList xs)) = False"

text \<open>
  A RawPlace of the specification's data model: a record with an optional display-name object
  \<open>{text: string}\<close>, an optional formatted-address string, an optional price-level string
  and an optional website URI string.
\<close>

fun is_raw_place :: "json \<Rightarrow> bool" where
  "is_raw_place (JDict d) =
     (optional_display_name (map_of d ''displayName'')
      \<and> optional_string (map_of d ''formattedAddress'')
      \<and> optional_string (map_of d ''priceLevel'')
      \<and> optional_string (map_of d ''websiteUri''))"
| "is_raw_place JNull = False"
| "is_raw_place (JBool b) = False"
| "is_raw_place (JInt i) = False"
| "is_raw_place (JStr s) = False"
| "is_raw_place (JList xs) = False"

text \<open>The text of the display name of a place, None when there is none.\<close>

definition display_text :: "json \<Rightarrow> json option" where
  "display_text place = (case field ''displayName'' place of None \<Rightarrow> None | Some dn \<Rightarrow> field ''text'' dn)"

text \<open>hasWebsite of a normalized record: its \<open>Has Website\<close> field is \<open>Yes\<close>.\<close>

definition has_website :: "json \<Rightarrow> bool" where
  "has_website x = (field ''Has Website'' x = Some (JStr ''Yes''))"


section \<open>Example inputs\<close>

text \<open>Scenario A of the specification: a place with a display name and an address only, and its row.\<close>

definition scenario_a :: json where
  "scenario_a =
     JDict [(''displayName'', JDict [(''text'', JStr ''Cafe A'')]),
            (''formattedAddress'', JStr ''1 Main St'')]"

definition scenario_a_row :: json where
  "scenario_a_row =
     JDict [(''Name'', JStr ''Cafe A''),
            (''Address'', JStr ''1 Main St''),
            (''Price Level'', JStr ''N/A''),
            (''Has Website'', JStr ''No''),
            (''Website'', JStr ''N/A'')]"

text \<open>A place with a website, one whose website is the empty string, and their list with the place of Scenario A.\<close>

definition shop_x :: json where
  "shop_x =
     JDict [(''displayName'', JDict [(''text'', JStr ''Shop X'')]),
            (''priceLevel'', JStr ''PRICE_LEVEL_MODERATE''),
            (''websiteUri'', JStr ''http://x.com'')]"

definition bar_y :: json where
  "bar_y = JDict [(''formattedAddress'', JStr ''2 Side St''), (''websiteUri'', JStr [])]"

definition three_places :: "json list" where
  "three_places = [shop_x, bar_y, scenario_a]"

text \<open>
  Responses: Scenario D (status 403, body \<open>forbidden\<close>), a 201 with a JSON body, and
  three with status 200, whose bodies are an object without \<open>places\<close>, an object with an
  empty list of places, and \<open>null\<close>.
\<close>

definition forbidden_response :: response where
  "forbidden_response =
     \<lparr>status_code = 403, response_text = ''forbidden'',
      response_json = JSONDecodeError ''Expecting value: line 1 column 1 (char 0)''\<rparr>"

definition created_response :: response where
  "created_response =
     \<lparr>status_code = 201, response_text = ''{}'', response_json = Decoded (JDict [])\<rparr>"

definition no_places_response :: response where
  "no_places_response =
     \<lparr>status_code = 200, response_text = ''{}'', response_json = Decoded (JDict [])\<rparr>"

definition empty_places_response :: response where
  "empty_places_response =
     \<lparr>status_code = 200, response_text = ''{'' @ [CHR 0x22] @ ''places'' @ [CHR 0x22] @ '': []}'',
      response_json = Decoded (JDict [(''places'', JList [])])\<rparr>"

definition null_response :: response where
  "null_response =
     \<lparr>status_code = 200, response_text = ''null'', response_json = Decoded JNull\<rparr>"



definition empty_script :: script where
  "empty_script =
     \<lparr>posts = [], rendered = [], result = JNull, error = None, places = JNull,
      processed_places = []\<rparr>"

text \<open>
  Two states of the page in which \<open>places\<close> is the list of the three places: a fresh one,
  and one with a request sent, a widget rendered and rows left over from an earlier search.
\<close>

definition three_places_script :: script where
  "three_places_script = empty_script\<lparr>places := JList three_places\<rparr>"

definition three_places_script_later :: script where
  "three_places_script_later =
     \<lparr>posts = [\<lparr>req_url = url, req_headers = [], req_json = JNull\<rparr>],
      rendered = [StWarning ''No results returned from the API''],
      result = JDict [(''places'', JList three_places)], error = None,
      places = JList three_places, processed_places = [scenario_a_row]\<rparr>"


text \<open>
  The three places as objects: the display names, the places and the list, in a store of
  their own; and the same three places in a store that begins with a list holding itself, so
  that every address is one higher.
\<close>

definition three_places_store :: store where
  "three_places_store =
     [ODict [(''text'', VStr ''Shop X'')],
      ODict [(''displayName'', VRef 0),
             (''priceLevel'', VStr ''PRICE_LEVEL_MODERATE''),
             (''websiteUri'', VStr ''http://x.com'')],
      ODict [(''formattedAddress'', VStr ''2 Side St''), (''websiteUri'', VStr [])],
      ODict [(''text'', VStr ''Cafe A'')],
      ODict [(''displayName'', VRef 3), (''formattedAddress'', VStr ''1 Main St'')],
      OList [VRef 1, VRef 2, VRef 4]]"

definition three_places_store_shifted :: store where
  "three_places_store_shifted =
     [OList [VRef 0],
      ODict [(''text'', VStr ''Shop X'')],
      ODict [(''displayName'', VRef 1),
             (''priceLevel'', VStr ''PRICE_LEVEL_MODERATE''),
             (''websiteUri'', VStr ''http://x.com'')],
      ODict [(''formattedAddress'', VStr ''2 Side St''), (''websiteUri'', VStr [])],
      ODict [(''text'', VStr ''Cafe A'')],
      ODict [(''displayName'', VRef 4), (''formattedAddress'', VStr ''1 Main St'')],
      OList [VRef 2, VRef 3, VRef 5]]"


section \<open>Auxiliary facts\<close>

subsection \<open>Exceptions, the loop and the sort\<close>

lemma pbind_Inr [simp]: "pbind (Inr x) f = f x"
  by (simp add: pbind_def)

lemma pbind_Inl [simp]: "pbind (Inl e) f = Inl e"
  by (simp add: pbind_def)

lemma pbind_eq_Inr: "pbind m f = Inr y \<longleftrightarrow> (\<exists>x. m = Inr x \<and> f x = Inr y)"
  by (cases m) simp_all

lemma py_subscript_Inr: "py_subscript x k = Inr v \<longleftrightarrow> field k x = Some v"
  by (cases x) (simp_all split: option.splits)

lemma sort_key_fn_True: "sort_key_fn x = Inr True \<longleftrightarrow> has_website x"
  by (auto simp: sort_key_fn_def has_website_def pbind_eq_Inr py_subscript_Inr)

lemma sort_key_fn_Inr: "sort_key_fn x = Inr b \<Longrightarrow> b = has_website x"
  by (auto simp: sort_key_fn_def has_website_def pbind_eq_Inr py_subscript_Inr)

lemma process_loop_Inr_gen:
  "process_loop xs acc = Inr ys \<longleftrightarrow>
     (\<exists>zs. ys = acc @ zs \<and> list_all2 (\<lambda>x y. process_place x = Inr y) xs zs)"
proof (induction xs arbitrary: acc)
  case Nil
  show ?case by auto
next
  case (Cons x xs)
  show ?case
  proof (cases "process_place x")
    case (Inl e)
    then show ?thesis by (simp add: list_all2_Cons1)
  next
    case (Inr y)
    then show ?thesis
      using Cons.IH [of "acc @ [y]"] by (auto simp: list_all2_Cons1)
  qed
qed

lemma process_loop_Inr_iff:
  "process_loop xs [] = Inr ys \<longleftrightarrow> list_all2 (\<lambda>x y. process_place x = Inr y) xs ys"
  by (simp add: process_loop_Inr_gen)

lemma process_places_list_iff:
  "process_places (JList xs) = Inr ys \<longleftrightarrow> list_all2 (\<lambda>x y. process_place x = Inr y) xs ys"
  by (simp add: process_places_def process_loop_Inr_iff)

lemma keyed_Inr:
  "keyed f xs = Inr kxs \<Longrightarrow> kxs = map (\<lambda>x. (f x = Inr True, x)) xs"
  by (induction xs arbitrary: kxs) (auto split: sum.splits)

lemma keyed_total:
  "\<forall>x\<in>set xs. \<exists>k. f x = Inr k \<Longrightarrow> \<exists>kxs. keyed f xs = Inr kxs"
  by (induction xs) (auto split: sum.splits)

lemma insort_key_decorated':
  "insort_key fst (g x, x) (map (\<lambda>x. (g x, x)) ys) = map (\<lambda>x. (g x, x)) (insort_key g x ys)"
  by (induction ys) simp_all

lemma sort_key_decorated:
  "sort_key fst (map (\<lambda>x. (g x, x)) xs) = map (\<lambda>x. (g x, x)) (sort_key g xs)"
  by (induction xs) (simp_all add: insort_key_decorated')

lemma insort_key_past:
  "\<forall>y\<in>set as. f y < f a \<Longrightarrow> insort_key f a (as @ bs) = as @ insort_key f a bs"
  by (induction as) auto

lemma sort_key_bool:
  fixes g :: "'a \<Rightarrow> bool"
  shows "sort_key g xs = filter (\<lambda>x. \<not> g x) xs @ filter g xs"
proof (induction xs)
  case Nil
  show ?case by simp
next
  case (Cons x xs)
  show ?case
  proof (cases "g x")
    case False
    then have "insort_key g x (sort_key g xs) = x # sort_key g xs"
      by (intro insort_is_Cons) simp
    then show ?thesis using False Cons.IH by simp
  next
    case True
    have "insort_key g x (filter (\<lambda>x. \<not> g x) xs @ filter g xs)
        = filter (\<lambda>x. \<not> g x) xs @ insort_key g x (filter g xs)"
      using True by (intro insort_key_past) auto
    moreover have "insort_key g x (filter g xs) = x # filter g xs"
      using True by (intro insort_is_Cons) simp
    ultimately show ?thesis using True Cons.IH by simp
  qed
qed

lemma py_sort_Inr:
  assumes "py_sort f xs = Inr out"
  shows "out = filter (\<lambda>x. f x \<noteq> Inr True) xs @ filter (\<lambda>x. f x = Inr True) xs"
proof -
  from assms obtain kxs where k: "keyed f xs = Inr kxs" and o: "out = map snd (sort_key fst kxs)"
    by (auto simp: py_sort_def pbind_eq_Inr)
  have "out = sort_key (\<lambda>x. f x = Inr True) xs"
    unfolding o keyed_Inr [OF k] sort_key_decorated by (simp add: comp_def)
  then show ?thesis by (simp add: sort_key_bool)
qed

subsection \<open>Records of the data model\<close>

lemma optional_string_cases:
  "optional_string v \<longleftrightarrow> v = None \<or> (\<exists>s. v = Some (JStr s))"
  by (cases v rule: optional_string.cases) simp_all

lemma optional_display_name_cases:
  "optional_display_name v \<longleftrightarrow> v = None \<or> (\<exists>d. v = Some (JDict d) \<and> optional_string (map_of d ''text''))"
  by (cases v rule: optional_display_name.cases) simp_all

lemma is_raw_place_dict:
  "is_raw_place place \<Longrightarrow> \<exists>d. place = JDict d"
  by (cases place) simp_all

text \<open>What the loop body returns for a dict whose display name is a dict or missing.\<close>

lemma process_place_dict:
  assumes "map_of d ''displayName'' = None \<or> (\<exists>dn. map_of d ''displayName'' = Some (JDict dn))"
  shows "process_place (JDict d) =
    Inr (JDict
      [(''Name'', (case map_of d ''displayName'' of
                    None \<Rightarrow> JStr ''Unknown''
                  | Some dn \<Rightarrow> (case field ''text'' dn of None \<Rightarrow> JStr ''Unknown'' | Some t \<Rightarrow> t))),
       (''Address'', (case map_of d ''formattedAddress'' of None \<Rightarrow> JStr ''N/A'' | Some a \<Rightarrow> a)),
       (''Price Level'', (case map_of d ''priceLevel'' of None \<Rightarrow> JStr ''N/A'' | Some a \<Rightarrow> a)),
       (''Has Website'', JStr (case map_of d ''websiteUri'' of
                                None \<Rightarrow> ''No''
                              | Some u \<Rightarrow> if py_truthy u then ''Yes'' else ''No'')),
       (''Website'', (case map_of d ''websiteUri'' of
                        None \<Rightarrow> JStr ''N/A''
                      | Some u \<Rightarrow> if py_truthy u then u else JStr ''N/A''))])"
  using assms
  by (auto simp: process_place_def has_website_value_def split: option.splits)

lemma process_place_raw_total:
  "is_raw_place place \<Longrightarrow> \<exists>out. process_place place = Inr out"
  by (cases place) (auto simp: optional_display_name_cases process_place_dict)

lemma process_places_raw_total:
  assumes "\<forall>p\<in>set raw. is_raw_place p"
  shows "\<exists>pp. process_places (JList raw) = Inr pp"
proof -
  have "\<exists>pp. list_all2 (\<lambda>x y. process_place x = Inr y) raw pp"
    using assms
  proof (induction raw)
    case Nil
    show ?case by simp
  next
    case (Cons p ps)
    then obtain y ys where "process_place p = Inr y"
      and "list_all2 (\<lambda>x y. process_place x = Inr y) ps ys"
      using process_place_raw_total [of p] by auto
    then have "list_all2 (\<lambda>x y. process_place x = Inr y) (p # ps) (y # ys)"
      by simp
    then show ?case ..
  qed
  then show ?thesis by (simp add: process_places_list_iff)
qed

lemma process_place_has_key:
  "process_place place = Inr out \<Longrightarrow> \<exists>k. sort_key_fn out = Inr k"
  by (auto simp: process_place_def pbind_eq_Inr sort_key_fn_def)

lemma py_sort_total:
  assumes "\<forall>x\<in>set xs. \<exists>k. f x = Inr k"
  shows "\<exists>out. py_sort f xs = Inr out"
  using keyed_total [OF assms] by (auto simp: py_sort_def)

lemma normalize_and_rank_raw_total:
  assumes "\<forall>p\<in>set raw. is_raw_place p"
  shows "\<exists>pp out. process_places (JList raw) = Inr pp \<and> normalize_and_rank (JList raw) = Inr out"
proof -
  from process_places_raw_total [OF assms] obtain pp
    where pp: "process_places (JList raw) = Inr pp" ..
  then have "list_all2 (\<lambda>x y. process_place x = Inr y) raw pp"
    by (simp add: process_places_list_iff)
  then have "\<forall>y\<in>set pp. \<exists>x. process_place x = Inr y"
    by (induction rule: list_all2_induct) auto
  then have "\<forall>y\<in>set pp. \<exists>k. sort_key_fn y = Inr k"
    by (blast dest: process_place_has_key)
  from py_sort_total [OF this] obtain out where "py_sort sort_key_fn pp = Inr out" ..
  with pp show ?thesis by (simp add: normalize_and_rank_def)
qed

lemma normalize_and_rank_Inr:
  assumes "normalize_and_rank raw = Inr out"
  shows "\<exists>pp. process_places raw = Inr pp
     \<and> out = filter (\<lambda>x. \<not> has_website x) pp @ filter has_website pp"
proof -
  from assms obtain pp where pp: "process_places raw = Inr pp"
    and "py_sort sort_key_fn pp = Inr out"
    by (auto simp: normalize_and_rank_def pbind_eq_Inr)
  from py_sort_Inr [OF this(2)] have "out = filter (\<lambda>x. \<not> has_website x) pp @ filter has_website pp"
    by (simp add: sort_key_fn_True)
  with pp show ?thesis by simp
qed


lemma process_places_nth:
  assumes "process_places (JList raw) = Inr pp"
  shows "length pp = length raw \<and> (\<forall>i<length raw. process_place (raw ! i) = Inr (pp ! i))"
  using assms by (simp add: process_places_list_iff list_all2_conv_all_nth)

subsection \<open>The order of the ranked list\<close>

lemma partition_order:
  assumes "i < j" and "j < length (filter (\<lambda>x. \<not> P x) xs @ filter P xs)"
    and "P ((filter (\<lambda>x. \<not> P x) xs @ filter P xs) ! i)"
  shows "P ((filter (\<lambda>x. \<not> P x) xs @ filter P xs) ! j)"
proof -
  let ?A = "filter (\<lambda>x. \<not> P x) xs" and ?B = "filter P xs"
  have "\<not> i < length ?A"
  proof
    assume less: "i < length ?A"
    then have "?A ! i \<in> set ?A" by (rule nth_mem)
    then have "\<not> P (?A ! i)" by simp
    moreover have "(?A @ ?B) ! i = ?A ! i"
      using less by (simp only: nth_append if_True)
    ultimately show False using assms(3) by simp
  qed
  with assms(1) have ge: "\<not> j < length ?A" by simp
  with assms(2) have "j - length ?A < length ?B" by simp
  then have "?B ! (j - length ?A) \<in> set ?B" by (rule nth_mem)
  then have "P (?B ! (j - length ?A))" by simp
  moreover have "(?A @ ?B) ! j = ?B ! (j - length ?A)"
    using ge by (simp only: nth_append if_False)
  ultimately show ?thesis by simp
qed

lemma normalize_and_rank_order:
  assumes "normalize_and_rank raw = Inr out" and "i < j" and "j < length out"
  shows "\<not> (has_website (out ! i) \<and> \<not> has_website (out ! j))"
proof -
  from normalize_and_rank_Inr [OF assms(1)] obtain pp
    where "out = filter (\<lambda>x. \<not> has_website x) pp @ filter has_website pp" by blast
  with assms(2,3) show ?thesis
    using partition_order [of i j has_website pp] by blast
qed

lemma normalize_and_rank_stmts_eq:
  "normalize_and_rank_stmts s =
     (case normalize_and_rank (places s) of
        Inl e \<Rightarrow> Inl e
      | Inr out \<Rightarrow> Inr (s\<lparr>processed_places := out\<rparr>))"
  by (simp add: normalize_and_rank_stmts_def assign_processed_places_def
      sort_processed_places_def normalize_and_rank_def pbind_def split: sum.splits)

lemma filter_partition_same:
  "filter (\<lambda>x. P x = b) (filter (\<lambda>x. \<not> P x) xs @ filter P xs) = filter (\<lambda>x. P x = b) xs"
  by (cases b) (simp_all add: conj_commute cong: filter_cong)

lemma mset_partition:
  "mset (filter (\<lambda>x. \<not> P x) xs @ filter P xs) = mset xs"
  by (induction xs) simp_all

subsection \<open>The website fields of one record\<close>

lemma field_process_place_raw:
  assumes "is_raw_place place"
  shows "\<exists>out. process_place place = Inr out \<and>
     (has_website out \<longleftrightarrow> (\<exists>u. field ''websiteUri'' place = Some (JStr u) \<and> u \<noteq> [])) \<and>
     (\<forall>u. field ''websiteUri'' place = Some (JStr u) \<and> u \<noteq> [] \<longrightarrow>
        field ''Website'' out = Some (JStr u)) \<and>
     (field ''websiteUri'' place = None \<or> field ''websiteUri'' place = Some (JStr []) \<longrightarrow>
        \<not> has_website out \<and> field ''Has Website'' out = Some (JStr ''No'')
        \<and> field ''Website'' out = Some (JStr ''N/A''))"
proof -
  from assms obtain d where d: "place = JDict d"
    by (auto dest: is_raw_place_dict)
  from assms have "optional_display_name (map_of d ''displayName'')"
    and "optional_string (map_of d ''websiteUri'')"
    by (simp_all add: d)
  then have dn: "map_of d ''displayName'' = None \<or> (\<exists>dn. map_of d ''displayName'' = Some (JDict dn))"
    and w: "map_of d ''websiteUri'' = None \<or> (\<exists>u. map_of d ''websiteUri'' = Some (JStr u))"
    unfolding optional_display_name_cases optional_string_cases by blast+
  from w show ?thesis
  proof
    assume "map_of d ''websiteUri'' = None"
    then show ?thesis
      unfolding d process_place_dict [OF dn] has_website_def by simp
  next
    assume "\<exists>u. map_of d ''websiteUri'' = Some (JStr u)"
    then obtain u where "map_of d ''websiteUri'' = Some (JStr u)" ..
    then show ?thesis
      unfolding d process_place_dict [OF dn] has_website_def by simp
  qed
qed


subsection \<open>The row of one record\<close>

lemma optional_string_default:
  assumes "optional_string v"
  shows "\<exists>a. (case v of None \<Rightarrow> JStr dflt | Some x \<Rightarrow> x) = JStr a
     \<and> (v = None \<longrightarrow> a = dflt) \<and> (\<forall>s. v = Some (JStr s) \<longrightarrow> a = s)"
  using assms unfolding optional_string_cases by auto

lemma display_name_default:
  assumes "optional_display_name (map_of d ''displayName'')"
  shows "\<exists>name.
     (case map_of d ''displayName'' of
        None \<Rightarrow> JStr ''Unknown''
      | Some dn \<Rightarrow> (case field ''text'' dn of None \<Rightarrow> JStr ''Unknown'' | Some t \<Rightarrow> t)) = JStr name
     \<and> (display_text (JDict d) = None \<longrightarrow> name = ''Unknown'')
     \<and> (\<forall>t. display_text (JDict d) = Some (JStr t) \<longrightarrow> name = t)"
proof -
  from assms consider "map_of d ''displayName'' = None"
    | dn where "map_of d ''displayName'' = Some (JDict dn)" and "optional_string (map_of dn ''text'')"
    unfolding optional_display_name_cases by auto
  then show ?thesis
  proof cases
    case 1
    then show ?thesis by (simp add: display_text_def)
  next
    case 2
    from optional_string_default [OF 2(2), of "''Unknown''"] 2(1)
    show ?thesis by (simp add: display_text_def)
  qed
qed

lemma website_default:
  assumes "optional_string v"
  shows "\<exists>site. (case v of None \<Rightarrow> JStr ''N/A'' | Some u \<Rightarrow> if py_truthy u then u else JStr ''N/A'') = JStr site
     \<and> (v = None \<longrightarrow> site = ''N/A'')"
  using assms unfolding optional_string_cases by auto

lemma process_place_raw_row:
  assumes "is_raw_place place"
  shows "\<exists>name address price yes_no site.
       process_place place =
         Inr (JDict [(''Name'', JStr name), (''Address'', JStr address),
                     (''Price Level'', JStr price), (''Has Website'', JStr yes_no),
                     (''Website'', JStr site)])
     \<and> (display_text place = None \<longrightarrow> name = ''Unknown'')
     \<and> (\<forall>t. display_text place = Some (JStr t) \<longrightarrow> name = t)
     \<and> (field ''formattedAddress'' place = None \<longrightarrow> address = ''N/A'')
     \<and> (\<forall>a. field ''formattedAddress'' place = Some (JStr a) \<longrightarrow> address = a)
     \<and> (field ''priceLevel'' place = None \<longrightarrow> price = ''N/A'')
     \<and> (\<forall>a. field ''priceLevel'' place = Some (JStr a) \<longrightarrow> price = a)
     \<and> (field ''websiteUri'' place = None \<longrightarrow> site = ''N/A'')"
proof -
  from assms obtain d where d: "place = JDict d"
    by (auto dest: is_raw_place_dict)
  from assms have o1: "optional_display_name (map_of d ''displayName'')"
    and o2: "optional_string (map_of d ''formattedAddress'')"
    and o3: "optional_string (map_of d ''priceLevel'')"
    and o4: "optional_string (map_of d ''websiteUri'')"
    by (simp_all add: d)
  from o1 have dn: "map_of d ''displayName'' = None \<or> (\<exists>dn. map_of d ''displayName'' = Some (JDict dn))"
    unfolding optional_display_name_cases by blast
  from display_name_default [OF o1] obtain name where
    n: "(case map_of d ''displayName'' of
        None \<Rightarrow> JStr ''Unknown''
      | Some dn \<Rightarrow> (case field ''text'' dn of None \<Rightarrow> JStr ''Unknown'' | Some t \<Rightarrow> t)) = JStr name"
    and n': "display_text (JDict d) = None \<longrightarrow> name = ''Unknown''"
       "\<forall>t. display_text (JDict d) = Some (JStr t) \<longrightarrow> name = t"
    by (elim exE conjE) (rule that; assumption)
  from optional_string_default [OF o2, of "''N/A''"] obtain address where
    a: "(case map_of d ''formattedAddress'' of None \<Rightarrow> JStr ''N/A'' | Some x \<Rightarrow> x) = JStr address"
    and a': "map_of d ''formattedAddress'' = None \<longrightarrow> address = ''N/A''"
       "\<forall>s. map_of d ''formattedAddress'' = Some (JStr s) \<longrightarrow> address = s"
    by (elim exE conjE) (rule that; assumption)
  from optional_string_default [OF o3, of "''N/A''"] obtain price where
    p: "(case map_of d ''priceLevel'' of None \<Rightarrow> JStr ''N/A'' | Some x \<Rightarrow> x) = JStr price"
    and p': "map_of d ''priceLevel'' = None \<longrightarrow> price = ''N/A''"
       "\<forall>s. map_of d ''priceLevel'' = Some (JStr s) \<longrightarrow> price = s"
    by (elim exE conjE) (rule that; assumption)
  from website_default [OF o4] obtain site where
    w: "(case map_of d ''websiteUri'' of None \<Rightarrow> JStr ''N/A''
         | Some u \<Rightarrow> if py_truthy u then u else JStr ''N/A'') = JStr site"
    and w': "map_of d ''websiteUri'' = None \<longrightarrow> site = ''N/A''"
    by (elim exE conjE) (rule that; assumption)
  have row: "process_place (JDict d) =
         Inr (JDict [(''Name'', JStr name), (''Address'', JStr address),
                     (''Price Level'', JStr price),
                     (''Has Website'', JStr (case map_of d ''websiteUri'' of
                                None \<Rightarrow> ''No''
                              | Some u \<Rightarrow> if py_truthy u then ''Yes'' else ''No'')),
                     (''Website'', JStr site)])"
    unfolding process_place_dict [OF dn] n a p w ..
  show ?thesis
    unfolding d field.simps
    by (intro exI conjI, rule row) (rule n' a' p' w')+
qed


subsection \<open>The statements of the page\<close>

lemma normalize_and_rank_stmts_Inr:
  assumes "normalize_and_rank (places s) = Inr out"
  shows "normalize_and_rank_stmts s = Inr (s\<lparr>processed_places := out\<rparr>)"
  using assms by (simp add: normalize_and_rank_stmts_eq)

lemma normalize_and_rank_stmts_Inl:
  assumes "normalize_and_rank (places s) = Inl e"
  shows "normalize_and_rank_stmts s = Inl e"
  using assms by (simp add: normalize_and_rank_stmts_eq)

lemma search_places_posts:
  "snd (search_places net query api_key sent) = sent @ [places_request query api_key]"
  by (simp add: search_places_def Let_def split: post_outcome.splits json_outcome.splits)


subsection \<open>Numerals and messages\<close>

lemma of_char_digit_char: "d < 10 \<Longrightarrow> of_char (digit_char d) = 48 + d"
  by (simp add: digit_char_def)

lemma digit_char_neq:
  assumes "d < 10"
  shows "digit_char d \<noteq> CHR ''-''" and "digit_char d \<noteq> CHR 0x0A"
proof -
  have "(of_char (digit_char d) :: nat) \<noteq> of_char (CHR ''-'')"
    using assms by (simp add: of_char_digit_char)
  then show "digit_char d \<noteq> CHR ''-''" by auto
  have "(of_char (digit_char d) :: nat) \<noteq> of_char (CHR 0x0A)"
    using assms by (simp add: of_char_digit_char)
  then show "digit_char d \<noteq> CHR 0x0A" by auto
qed

lemma str_nat_digits: "set (str_nat n) \<subseteq> digit_char ` {..<10}"
proof (induction n rule: str_nat.induct)
  case (1 n)
  show ?case
  proof (cases "n < 10")
    case True
    then show ?thesis by (subst str_nat.simps) simp
  next
    case False
    have "n mod 10 < 10" by simp
    with False "1.IH" show ?thesis by (subst str_nat.simps) auto
  qed
qed

lemma str_nat_not_Nil: "str_nat n \<noteq> []"
  by (subst str_nat.simps) simp

lemma digits_value_snoc:
  "digits_value (s @ [c]) = 10 * digits_value s + (of_char c - 48)"
  by (simp add: digits_value_def)

lemma digits_value_str_nat: "digits_value (str_nat n) = n"
proof (induction n rule: str_nat.induct)
  case (1 n)
  show ?case
  proof (cases "n < 10")
    case True
    then have "str_nat n = [digit_char n]" by (subst str_nat.simps) simp
    then show ?thesis using True by (simp add: digits_value_def of_char_digit_char)
  next
    case False
    then have "str_nat n = str_nat (n div 10) @ [digit_char (n mod 10)]"
      by (subst str_nat.simps) simp
    then have "digits_value (str_nat n) = 10 * digits_value (str_nat (n div 10)) + n mod 10"
      by (simp add: digits_value_snoc of_char_digit_char)
    with False "1.IH" show ?thesis by simp
  qed
qed

lemma str_nat_hd: "\<exists>c cs. str_nat n = c # cs \<and> c \<noteq> CHR ''-''"
proof -
  obtain c cs where eq: "str_nat n = c # cs"
    using str_nat_not_Nil [of n] by (cases "str_nat n") auto
  then have "c \<in> set (str_nat n)" by simp
  with str_nat_digits [of n] obtain d where "d < 10" and "c = digit_char d" by auto
  with digit_char_neq(1) eq show ?thesis by auto
qed

lemma int_of_str_str_int: "int_of_str (str_int i) = i"
proof (cases "i < 0")
  case True
  then show ?thesis
    by (simp add: str_int_def int_of_str_def digits_value_str_nat)
next
  case False
  from str_nat_hd [of "nat i"] obtain c cs
    where eq: "str_nat (nat i) = c # cs" and c: "c \<noteq> CHR ''-''" by blast
  have "int_of_str (str_nat (nat i)) = int (digits_value (str_nat (nat i)))"
    unfolding int_of_str_def eq using c by simp
  with False show ?thesis
    by (simp add: str_int_def digits_value_str_nat)
qed

lemma str_int_inject: "str_int i = str_int j \<Longrightarrow> i = j"
  by (metis int_of_str_str_int)

lemma newline_notin_str_int: "CHR 0x0A \<notin> set (str_int i)"
proof -
  have "CHR 0x0A \<notin> set (str_nat n)" for n
  proof
    assume "CHR 0x0A \<in> set (str_nat n)"
    with str_nat_digits [of n] obtain d where "d < 10" and "CHR 0x0A = digit_char d" by auto
    with digit_char_neq(2) [of d] show False by simp
  qed
  then show ?thesis by (simp add: str_int_def)
qed

lemma takeWhile_until:
  "c \<notin> set xs \<Longrightarrow> takeWhile (\<lambda>x. x \<noteq> c) (xs @ c # r) = xs"
  by (induction xs) auto

lemma split_at_unique:
  assumes "c \<notin> set xs" and "c \<notin> set ys" and "xs @ c # r = ys @ c # r'"
  shows "xs = ys \<and> r = r'"
proof -
  have "takeWhile (\<lambda>x. x \<noteq> c) (xs @ c # r) = xs"
    using assms(1) by (rule takeWhile_until)
  moreover have "takeWhile (\<lambda>x. x \<noteq> c) (ys @ c # r') = ys"
    using assms(2) by (rule takeWhile_until)
  ultimately have "xs = ys" using assms(3) by simp
  with assms(3) show ?thesis by simp
qed

lemma error_msg_inject:
  assumes "error_msg c b = error_msg c' b'"
  shows "c = c' \<and> b = b'"
proof -
  from assms have "str_int c @ CHR 0x0A # (''Error: '' @ b) = str_int c' @ CHR 0x0A # (''Error: '' @ b')"
    by (simp add: error_msg_def newline_def)
  from split_at_unique [OF newline_notin_str_int newline_notin_str_int this]
  show ?thesis by (auto dest: str_int_inject)
qed

lemma exception_msg_inject: "exception_msg e = exception_msg e' \<Longrightarrow> e = e'"
  by (simp add: exception_msg_def)

lemma error_msg_neq_exception_msg: "error_msg c b \<noteq> exception_msg e"
  by (simp add: error_msg_def exception_msg_def)

lemma str_int_403: "str_int 403 = ''403''"
  by code_simp

lemma str_int_201: "str_int 201 = ''201''"
  by code_simp


subsection \<open>The ways out of search_places\<close>

lemma search_places_Returned_200:
  assumes "net (places_request query api_key) = Returned r" and "status_code r = 200"
  shows "search_places net query api_key sent =
     ((case response_json r of
         Decoded parsed \<Rightarrow> Inr (parsed, None)
       | JSONDecodeError e \<Rightarrow> Inr (JNull, Some (exception_msg e))
       | DecodeRaised e \<Rightarrow> Inl e),
      sent @ [places_request query api_key])"
  using assms by (simp add: search_places_def Let_def split: json_outcome.splits)

lemma search_places_Returned_other:
  assumes "net (places_request query api_key) = Returned r" and "status_code r \<noteq> 200"
  shows "search_places net query api_key sent =
     (Inr (JNull, Some (error_msg (status_code r) (response_text r))),
      sent @ [places_request query api_key])"
  using assms by (simp add: search_places_def Let_def)

lemma search_places_RequestException:
  assumes "net (places_request query api_key) = RequestException e"
  shows "search_places net query api_key sent =
     (Inr (JNull, Some (exception_msg e)), sent @ [places_request query api_key])"
  using assms by (simp add: search_places_def Let_def)





subsection \<open>Values in a store that grows\<close>

lemma represents_transfer:
  assumes "represents A h v j"
    and "\<And>a. a \<in> A \<Longrightarrow> a < length h \<Longrightarrow> a \<in> B \<and> a < length h' \<and> h' ! a = h ! a"
  shows "represents B h' v j"
  using assms
proof (induction A h v j rule: represents.induct)
  case (5 A h v js)
  from "5.prems"(1) obtain a vs where v: "v = VRef a" and a: "a \<in> A" "a < length h"
    and ob: "h ! a = OList vs" and all: "list_all2 (represents A h) vs js"
    by (auto simp: represents.simps split: val.splits obj.splits)
  from "5.prems"(2) [OF a] have a': "a \<in> B" "a < length h'" "h' ! a = OList vs"
    using ob by simp_all
  have "list_all2 (represents B h') vs js"
    using all
  proof (rule list.rel_mono_strong)
    fix x y assume "x \<in> set vs" "y \<in> set js" "represents A h x y"
    then show "represents B h' x y"
      using "5.IH" [OF v ob] "5.prems"(2) by blast
  qed
  with v a' show ?case by (simp add: represents.simps)
next
  case (6 A h v kjs)
  from "6.prems"(1) obtain a kvs where v: "v = VRef a" and a: "a \<in> A" "a < length h"
    and ob: "h ! a = ODict kvs"
    and all: "list_all2 (\<lambda>kv kj. fst kv = fst kj \<and> represents A h (snd kv) (snd kj)) kvs kjs"
    by (auto simp: represents.simps split: val.splits obj.splits)
  from "6.prems"(2) [OF a] have a': "a \<in> B" "a < length h'" "h' ! a = ODict kvs"
    using ob by simp_all
  have "list_all2 (\<lambda>kv kj. fst kv = fst kj \<and> represents B h' (snd kv) (snd kj)) kvs kjs"
    using all
  proof (rule list.rel_mono_strong)
    fix x y assume "x \<in> set kvs" "y \<in> set kjs"
      "fst x = fst y \<and> represents A h (snd x) (snd y)"
    then show "fst x = fst y \<and> represents B h' (snd x) (snd y)"
      using "6.IH" [OF v ob] "6.prems"(2) by blast
  qed
  with v a' show ?case by (simp add: represents.simps)
qed simp_all

lemma represents_mono:
  "represents A h v j \<Longrightarrow> A \<subseteq> B \<Longrightarrow> represents B h v j"
  by (erule represents_transfer) auto

lemma represents_below:
  "represents A h v j \<Longrightarrow> represents (A \<inter> {..<length h}) h v j"
  by (erule represents_transfer) auto

lemma represents_extends_except:
  assumes "represents A h v j" and "extends_except p h h'" and "p \<notin> A"
  shows "represents A h' v j"
  using assms(1)
proof (rule represents_transfer)
  fix a assume "a \<in> A" "a < length h"
  with assms(2,3) show "a \<in> A \<and> a < length h' \<and> h' ! a = h ! a"
    by (auto simp: extends_except_def)
qed

lemma extends_except_refl: "extends_except p h h"
  by (simp add: extends_except_def)

lemma extends_except_trans:
  "extends_except p h h' \<Longrightarrow> extends_except p h' h'' \<Longrightarrow> extends_except p h h''"
  by (auto simp: extends_except_def)

lemma extends_except_alloc: "extends_except p h (h @ obs)"
  by (simp add: extends_except_def nth_append)

lemma extends_except_update: "extends_except p h (h[p := ob])"
  by (simp add: extends_except_def)

lemma extends_except_take:
  assumes "extends_except p h h'" and "length h \<le> p"
  shows "take (length h) h' = h"
proof (rule nth_equalityI)
  show "length (take (length h) h') = length h"
    using assms(1) by (simp add: extends_except_def)
next
  fix i assume "i < length (take (length h) h')"
  then have "i < length h" by simp
  with assms show "take (length h) h' ! i = h ! i"
    by (simp add: extends_except_def)
qed


subsection \<open>The operators on references and on values\<close>

lemma represents_VStr_iff:
  "represents A h v j \<Longrightarrow> v = VStr k \<longleftrightarrow> j = JStr k"
  by (cases j) (auto simp: represents.simps split: val.splits)

lemma represents_prim [simp]:
  "represents A h VNone JNull" "represents A h (VBool b) (JBool b)"
  "represents A h (VInt i) (JInt i)" "represents A h (VStr s) (JStr s)"
  by simp_all

lemma represents_JList:
  "represents A h v (JList js) \<longleftrightarrow>
     (\<exists>a vs. v = VRef a \<and> a \<in> A \<and> a < length h \<and> h ! a = OList vs
        \<and> list_all2 (represents A h) vs js)"
  by (auto simp: represents.simps split: val.splits obj.splits)

lemma represents_JDict:
  "represents A h v (JDict kjs) \<longleftrightarrow>
     (\<exists>a kvs. v = VRef a \<and> a \<in> A \<and> a < length h \<and> h ! a = ODict kvs
        \<and> list_all2 (\<lambda>kv kj. fst kv = fst kj \<and> represents A h (snd kv) (snd kj)) kvs kjs)"
  by (auto simp: represents.simps split: val.splits obj.splits)

lemma dict_map_of:
  assumes "list_all2 (\<lambda>kv kj. fst kv = fst kj \<and> represents A h (snd kv) (snd kj)) kvs kjs"
  shows "(map_of kvs k = None \<and> map_of kjs k = None)
     \<or> (\<exists>v j. map_of kvs k = Some v \<and> map_of kjs k = Some j \<and> represents A h v j)"
  using assms by (induction rule: list_all2_induct) auto

lemma list_member:
  assumes "list_all2 (represents A h) vs js"
  shows "VStr k \<in> set vs \<longleftrightarrow> JStr k \<in> set js"
  using assms
proof (induction rule: list_all2_induct)
  case Nil
  show ?case by simp
next
  case (Cons v vs j js)
  from represents_VStr_iff [OF Cons(1), of k] have "VStr k = v \<longleftrightarrow> JStr k = j"
    by (simp add: eq_commute)
  with Cons(3) show ?case by simp
qed

lemma deref_less [simp]: "a < length h \<Longrightarrow> deref h a = Inr (h ! a)"
  by (simp add: deref_def)

lemma ref_truthy_represents:
  assumes "represents A h v j"
  shows "ref_truthy h v = Inr (py_truthy j)"
proof (cases j)
  case (JList js)
  with assms show ?thesis by (auto simp: represents_JList)
next
  case (JDict kjs)
  with assms show ?thesis by (auto simp: represents_JDict)
qed (use assms in simp_all)

lemma ref_contains_represents:
  assumes "represents A h v j"
  shows "ref_contains h k v = py_contains k j"
proof (cases j)
  case (JList js)
  with assms show ?thesis by (auto simp: represents_JList list_member)
next
  case (JDict kjs)
  with assms obtain a kvs where v: "v = VRef a" "a < length h" "h ! a = ODict kvs"
    and all: "list_all2 (\<lambda>kv kj. fst kv = fst kj \<and> represents A h (snd kv) (snd kj)) kvs kjs"
    by (auto simp: represents_JDict)
  from dict_map_of [OF all, of k] have "map_of kvs k \<noteq> None \<longleftrightarrow> map_of kjs k \<noteq> None"
    by auto
  with v JDict show ?thesis by simp
qed (use assms in simp_all)

lemma ref_subscript_represents:
  assumes "represents A h v j"
  shows "rel_sum (=) (represents A h) (ref_subscript h v k) (py_subscript j k)"
proof (cases j)
  case (JList js)
  with assms show ?thesis by (auto simp: represents_JList)
next
  case (JDict kjs)
  with assms obtain a kvs where v: "v = VRef a" "a < length h" "h ! a = ODict kvs"
    and all: "list_all2 (\<lambda>kv kj. fst kv = fst kj \<and> represents A h (snd kv) (snd kj)) kvs kjs"
    by (auto simp: represents_JDict)
  from dict_map_of [OF all, of k] show ?thesis
  proof (elim disjE exE conjE)
    assume "map_of kvs k = None" "map_of kjs k = None"
    with v JDict show ?thesis by simp
  next
    fix x y assume "map_of kvs k = Some x" "map_of kjs k = Some y" "represents A h x y"
    with v JDict show ?thesis by simp
  qed
qed (use assms in simp_all)

lemma ref_get_represents:
  assumes "represents A h v j" and "represents A h d dj"
  shows "rel_sum (=) (represents A h) (ref_get h v k d) (py_get j k dj)"
proof (cases j)
  case (JList js)
  with assms show ?thesis by (auto simp: represents_JList)
next
  case (JDict kjs)
  with assms obtain a kvs where v: "v = VRef a" "a < length h" "h ! a = ODict kvs"
    and all: "list_all2 (\<lambda>kv kj. fst kv = fst kj \<and> represents A h (snd kv) (snd kj)) kvs kjs"
    by (auto simp: represents_JDict)
  from dict_map_of [OF all, of k] show ?thesis
  proof (elim disjE exE conjE)
    assume "map_of kvs k = None" "map_of kjs k = None"
    with v JDict assms(2) show ?thesis by simp
  next
    fix x y assume "map_of kvs k = Some x" "map_of kjs k = Some y" "represents A h x y"
    with v JDict show ?thesis by simp
  qed
qed (use assms in simp_all)

lemma pbind_rel:
  assumes "rel_sum (=) R m m'"
    and "\<And>x y. R x y \<Longrightarrow> rel_sum (=) S (f x) (g y)"
  shows "rel_sum (=) S (pbind m f) (pbind m' g)"
  using assms by (auto elim!: rel_sum.cases)

lemma ref_has_website_value_represents:
  assumes "represents A h v j"
  shows "rel_sum (=) (represents A h) (ref_has_website_value h v) (has_website_value j)"
  unfolding ref_has_website_value_def has_website_value_def
  using ref_subscript_represents [OF assms, of "''websiteUri''"]
  by (cases "py_contains ''websiteUri'' j") (simp_all add: ref_contains_represents [OF assms])


subsection \<open>One place as an object\<close>

lemma rel_sum_mono_eq:
  assumes "rel_sum (=) R x y" and "\<And>a b. R a b \<Longrightarrow> S a b"
  shows "rel_sum (=) S x y"
  using assms by (auto elim!: rel_sum.cases)

lemma if_rel:
  "(c \<Longrightarrow> R a b) \<Longrightarrow> (\<not> c \<Longrightarrow> R a' b') \<Longrightarrow> R (if c then a else a') (if c then b else b')"
  by simp

lemma represents_new_dict:
  assumes "list_all2 (\<lambda>kv kj. fst kv = fst kj \<and> represents B h (snd kv) (snd kj)) kvs kjs"
    and "length h \<in> B"
  shows "represents B (h @ [ODict kvs]) (VRef (length h)) (JDict kjs)"
proof -
  have "list_all2 (\<lambda>kv kj. fst kv = fst kj \<and> represents B (h @ [ODict kvs]) (snd kv) (snd kj))
      kvs kjs"
    using assms(1)
  proof (rule list.rel_mono_strong)
    fix x y assume "fst x = fst y \<and> represents B h (snd x) (snd y)"
    then have "represents B (h @ [ODict kvs]) (snd x) (snd y)" and "fst x = fst y"
      by (auto elim!: represents_transfer simp: nth_append)
    then show "fst x = fst y \<and> represents B (h @ [ODict kvs]) (snd x) (snd y)" by simp
  qed
  with assms(2) show ?thesis by (simp add: represents_JDict)
qed

lemma ref_process_place_represents:
  assumes "represents A h place j"
  shows "rel_sum (=)
     (\<lambda>vh row. fst vh = VRef (Suc (length h))
        \<and> (\<exists>d. snd vh = h @ [ODict [], ODict d])
        \<and> represents (A \<union> {length h, Suc (length h)}) (snd vh) (fst vh) row)
     (ref_process_place h place) (process_place j)"
proof -
  let ?n = "length h" and ?h1 = "h @ [ODict []]"
  let ?B = "A \<union> {length h, Suc (length h)}"
  have up: "represents ?B ?h1 v x" if "represents A h v x" for v x
    using that by (rule represents_transfer) (auto simp: nth_append)
  have final: "represents ?B (?h1 @ [ob]) v x" if "represents ?B ?h1 v x" for v x ob
    using that by (rule represents_transfer) (auto simp: nth_append)
  have place: "represents ?B ?h1 place j"
    using assms by (rule up)
  have dflt: "represents ?B ?h1 (VRef ?n) (JDict [])"
    by (simp add: represents_JDict)
  have hw: "rel_sum (=) (represents ?B ?h1) (ref_has_website_value h place) (has_website_value j)"
    using ref_has_website_value_represents [OF assms] up by (rule rel_sum_mono_eq)
  show ?thesis
    unfolding ref_process_place_def process_place_def alloc_def prod.case
    apply (rule pbind_rel [OF hw])
    apply (rule pbind_rel [OF ref_get_represents [OF place dflt]])
    apply (rule pbind_rel [OF ref_get_represents])
       apply assumption
      apply simp
    apply (rule pbind_rel [OF ref_get_represents [OF place]])
     apply simp
    apply (rule pbind_rel [OF ref_get_represents [OF place]])
     apply simp
    apply (simp only: ref_truthy_represents pbind_Inr)
    apply (rule pbind_rel [where R = "represents ?B ?h1"])
     apply (rule if_rel)
      apply (rule ref_get_represents [OF place])
      apply simp
     apply simp
    apply (rule rel_sum.intros(2))
    apply (simp only: fst_conv snd_conv)
    apply (intro conjI)
      apply simp
     apply simp
    apply (rule represents_new_dict)
     apply simp
    apply simp
    done
qed


subsection \<open>One turn of the loop on objects\<close>

lemma holds_rows_extends:
  assumes "holds_rows p h rows" and "extends_except p h h'" and "h' ! p = h ! p"
  shows "holds_rows p h' rows"
proof -
  from assms(1) obtain rs where p: "p < length h" and ob: "h ! p = OList rs"
    and all: "list_all2 (represents (- {p}) h) rs rows"
    by (auto simp: holds_rows_def)
  have "list_all2 (represents (- {p}) h') rs rows"
    using all
  proof (rule list.rel_mono_strong)
    fix x y assume "represents (- {p}) h x y"
    then show "represents (- {p}) h' x y"
      using assms(2) by (rule represents_extends_except) simp
  qed
  moreover from p assms(2) have "p < length h'"
    by (simp add: extends_except_def)
  ultimately show ?thesis using ob assms(3) by (auto simp: holds_rows_def)
qed

lemma holds_rows_append:
  assumes "holds_rows p h rows" and "represents B h x row" and "p \<notin> B"
  shows "\<exists>rs. h ! p = OList rs
     \<and> holds_rows p (h[p := OList (rs @ [x])]) (rows @ [row])"
proof -
  from assms(1) obtain rs where p: "p < length h" and ob: "h ! p = OList rs"
    and all: "list_all2 (represents (- {p}) h) rs rows"
    by (auto simp: holds_rows_def)
  let ?h' = "h[p := OList (rs @ [x])]"
  have ext: "extends_except p h ?h'" by (rule extends_except_update)
  have "list_all2 (represents (- {p}) ?h') rs rows"
    using all
  proof (rule list.rel_mono_strong)
    fix x y assume "represents (- {p}) h x y"
    then show "represents (- {p}) ?h' x y"
      using ext by (rule represents_extends_except) simp
  qed
  moreover have "represents (- {p}) h x row"
    using assms(2) by (rule represents_mono) (use assms(3) in auto)
  then have "represents (- {p}) ?h' x row"
    using ext by (rule represents_extends_except) simp
  ultimately have "list_all2 (represents (- {p}) ?h') (rs @ [x]) (rows @ [row])"
    by (simp add: list_all2_appendI)
  with p ob show ?thesis by (auto simp: holds_rows_def)
qed

lemma ref_loop_body_represents:
  assumes "represents A h place j" and "p \<notin> A" and "holds_rows p h rows"
  shows "rel_sum (=) (\<lambda>h' row. extends_except p h h' \<and> holds_rows p h' (rows @ [row]))
     (ref_loop_body h place (VRef p)) (process_place j)"
proof (cases "process_place j")
  case (Inl e)
  with ref_process_place_represents [OF assms(1)] have "ref_process_place h place = Inl e"
    by (auto elim: rel_sum.cases)
  with Inl show ?thesis by (simp add: ref_loop_body_def)
next
  case (Inr row)
  let ?B = "A \<union> {length h, Suc (length h)}"
  from assms(3) have p: "p < length h" by (simp add: holds_rows_def)
  from ref_process_place_represents [OF assms(1)] Inr obtain d where
    run: "ref_process_place h place = Inr (VRef (Suc (length h)), h @ [ODict [], ODict d])"
    and row: "represents ?B (h @ [ODict [], ODict d]) (VRef (Suc (length h))) row"
    by (auto elim!: rel_sum.cases)
  let ?h2 = "h @ [ODict [], ODict d]"
  have ext2: "extends_except p h ?h2" by (rule extends_except_alloc)
  have same: "?h2 ! p = h ! p" using p by (simp add: nth_append)
  have rows2: "holds_rows p ?h2 rows"
    using assms(3) ext2 same by (rule holds_rows_extends)
  have notin: "p \<notin> ?B" using assms(2) p by auto
  from holds_rows_append [OF rows2 row notin] obtain rs where
    ob: "?h2 ! p = OList rs"
    and rows3: "holds_rows p (?h2[p := OList (rs @ [VRef (Suc (length h))])]) (rows @ [row])"
    by blast
  let ?h3 = "?h2[p := OList (rs @ [VRef (Suc (length h))])]"
  have "p < length ?h2" using p by simp
  with ob have app: "ref_append ?h2 (VRef p) (VRef (Suc (length h))) = Inr ?h3"
    by (simp del: append.simps)
  have "extends_except p h ?h3"
    using ext2 extends_except_update by (rule extends_except_trans)
  with run app rows3 Inr show ?thesis
    by (simp add: ref_loop_body_def del: append.simps)
qed


subsection \<open>The loops on objects\<close>

lemma list_all2_represents_extends:
  assumes "list_all2 (represents A h) vs js" and "extends_except p h h'" and "p \<notin> A"
  shows "list_all2 (represents A h') vs js"
  using assms(1)
proof (rule list.rel_mono_strong)
  fix x y assume "represents A h x y"
  then show "represents A h' x y"
    using assms(2,3) by (rule represents_extends_except)
qed

lemma ref_items_loop_represents:
  assumes "list_all2 (represents A h) items js" and "p \<notin> A" and "holds_rows p h rows"
  shows "rel_sum (=) (\<lambda>h' out. extends_except p h h' \<and> holds_rows p h' out)
     (ref_items_loop items (VRef p) h) (process_loop js rows)"
  using assms
proof (induction items arbitrary: js h rows)
  case Nil
  then show ?case by (simp add: extends_except_refl)
next
  case (Cons v vs)
  from Cons.prems(1) obtain j js' where js: "js = j # js'" and item: "represents A h v j"
    and rest: "list_all2 (represents A h) vs js'"
    by (auto simp: list_all2_Cons1)
  note body = ref_loop_body_represents [OF item Cons.prems(2,3)]
  show ?case
  proof (cases "process_place j")
    case (Inl e)
    with body have "ref_loop_body h v (VRef p) = Inl e"
      by (auto elim: rel_sum.cases)
    with Inl js show ?thesis by simp
  next
    case (Inr row)
    with body obtain h' where run: "ref_loop_body h v (VRef p) = Inr h'"
      and ext: "extends_except p h h'" and rows': "holds_rows p h' (rows @ [row])"
      by (auto elim!: rel_sum.cases)
    have "list_all2 (represents A h') vs js'"
      using rest ext Cons.prems(2) by (rule list_all2_represents_extends)
    from Cons.IH [OF this Cons.prems(2) rows']
    have "rel_sum (=) (\<lambda>h'' out. extends_except p h' h'' \<and> holds_rows p h'' out)
       (ref_items_loop vs (VRef p) h') (process_loop js' (rows @ [row]))" .
    then have "rel_sum (=) (\<lambda>h'' out. extends_except p h h'' \<and> holds_rows p h'' out)
       (ref_items_loop vs (VRef p) h') (process_loop js' (rows @ [row]))"
      by (rule rel_sum_mono_eq) (use ext in \<open>auto intro: extends_except_trans\<close>)
    with run Inr js show ?thesis by simp
  qed
qed

lemma ref_list_loop_represents:
  assumes "a < length h" and "a \<noteq> p" and "h ! a = OList vs"
    and "list_all2 (represents A h) vs js" and "p \<notin> A" and "holds_rows p h rows"
    and "i \<le> length vs"
  shows "\<exists>r. ref_list_loop a i (VRef p) h = Some r
     \<and> rel_sum (=) (\<lambda>h' out. extends_except p h h' \<and> holds_rows p h' out)
          r (process_loop (drop i js) rows)"
  using assms
proof (induction "length vs - i" arbitrary: i h rows)
  case 0
  then have i: "i = length vs" by simp
  from "0.prems"(4) have "length js = length vs" by (simp add: list_all2_lengthD)
  with i have "process_loop (drop i js) rows = Inr rows" by simp
  moreover have "ref_list_loop a i (VRef p) h = Some (Inr h)"
    using "0.prems"(1,3) i by (subst ref_list_loop.simps) simp
  ultimately show ?case
    using "0.prems"(6) by (simp add: extends_except_refl)
next
  case (Suc n)
  then have i: "i < length vs" by simp
  from Suc.prems(4) have len: "length js = length vs" by (simp add: list_all2_lengthD)
  from Suc.prems(4) i have item: "represents A h (vs ! i) (js ! i)"
    by (simp add: list_all2_nthD)
  from i len have drop: "drop i js = js ! i # drop (Suc i) js"
    by (simp add: Cons_nth_drop_Suc)
  note body = ref_loop_body_represents [OF item Suc.prems(5,6)]
  have unfold: "ref_list_loop a i (VRef p) h =
      (case ref_loop_body h (vs ! i) (VRef p) of
         Inl e \<Rightarrow> Some (Inl e)
       | Inr h' \<Rightarrow> ref_list_loop a (i + 1) (VRef p) h')"
    using Suc.prems(1,3) i by (subst ref_list_loop.simps) simp
  show ?case
  proof (cases "process_place (js ! i)")
    case (Inl e)
    with body have "ref_loop_body h (vs ! i) (VRef p) = Inl e"
      by (auto elim: rel_sum.cases)
    with Inl unfold drop show ?thesis by simp
  next
    case (Inr row)
    with body obtain h' where run: "ref_loop_body h (vs ! i) (VRef p) = Inr h'"
      and ext: "extends_except p h h'" and rows': "holds_rows p h' (rows @ [row])"
      by (auto elim!: rel_sum.cases)
    from ext Suc.prems(1,2,3) have a': "a < length h'" and ob': "h' ! a = OList vs"
      by (auto simp: extends_except_def)
    have all': "list_all2 (represents A h') vs js"
      using Suc.prems(4) ext Suc.prems(5) by (rule list_all2_represents_extends)
    have n: "n = length vs - Suc i" using Suc.hyps(2) by simp
    have le: "Suc i \<le> length vs" using i by simp
    from Suc.hyps(1) [OF n a' Suc.prems(2) ob' all' Suc.prems(5) rows' le]
    obtain r where r: "ref_list_loop a (Suc i) (VRef p) h' = Some r"
      and rel: "rel_sum (=) (\<lambda>h'' out. extends_except p h' h'' \<and> holds_rows p h'' out)
          r (process_loop (drop (Suc i) js) (rows @ [row]))"
      by blast
    from rel have "rel_sum (=) (\<lambda>h'' out. extends_except p h h'' \<and> holds_rows p h'' out)
          r (process_loop (drop (Suc i) js) (rows @ [row]))"
      by (rule rel_sum_mono_eq) (use ext in \<open>auto intro: extends_except_trans\<close>)
    with r run unfold drop Inr show ?thesis by simp
  qed
qed


subsection \<open>process_places and the sort on objects\<close>

lemma returning_rel:
  assumes "rel_sum (=) R r x"
  shows "rel_sum (=) (\<lambda>vh out. fst vh = v \<and> R (snd vh) out) (returning v r) x"
  using assms by (auto simp: returning_def elim!: rel_sum.cases)

lemma ref_process_places_represents:
  assumes "represents A h v j"
  shows "\<exists>r. ref_process_places h v = Some r
     \<and> rel_sum (=)
          (\<lambda>vh out. fst vh = VRef (length h)
             \<and> extends_except (length h) (h @ [OList []]) (snd vh)
             \<and> holds_rows (length h) (snd vh) out)
          r (process_places j)"
proof -
  let ?n = "length h" and ?h0 = "h @ [OList []]"
  let ?A = "A \<inter> {..<length h}"
  let ?R = "\<lambda>h' out. extends_except ?n ?h0 h' \<and> holds_rows ?n h' out"
  have up: "represents ?A ?h0 x y" if "represents A h x y" for x y
    using that by (rule represents_transfer) (auto simp: nth_append)
  have notin: "?n \<notin> ?A" by simp
  have rows: "holds_rows ?n ?h0 []" by (simp add: holds_rows_def)
  show ?thesis
  proof (cases j)
    case JNull
    with assms show ?thesis by (simp add: ref_process_places_def process_places_def alloc_def)
  next
    case (JBool b)
    with assms show ?thesis by (simp add: ref_process_places_def process_places_def alloc_def)
  next
    case (JInt i)
    with assms show ?thesis by (simp add: ref_process_places_def process_places_def alloc_def)
  next
    case (JStr s)
    have "list_all2 (represents ?A ?h0) (map (\<lambda>c. VStr [c]) s) (map (\<lambda>c. JStr [c]) s)"
      by (simp add: list_all2_map1 list_all2_map2 list_all2_same)
    from ref_items_loop_represents [OF this notin rows]
    have "rel_sum (=) (\<lambda>vh out. fst vh = VRef ?n \<and> ?R (snd vh) out)
        (returning (VRef ?n) (ref_items_loop (map (\<lambda>c. VStr [c]) s) (VRef ?n) ?h0))
        (process_loop (map (\<lambda>c. JStr [c]) s) [])"
      by (rule returning_rel)
    with JStr assms show ?thesis
      by (simp add: ref_process_places_def process_places_def alloc_def)
  next
    case (JList js)
    with assms obtain a vs where v: "v = VRef a" and a: "a < length h" and ob: "h ! a = OList vs"
      and all: "list_all2 (represents A h) vs js"
      by (auto simp: represents_JList)
    have a0: "a < length ?h0" using a by simp
    have ne: "a \<noteq> ?n" using a by simp
    have ob0: "?h0 ! a = OList vs" using a ob by (simp add: nth_append)
    have all0: "list_all2 (represents ?A ?h0) vs js"
      using all by (rule list.rel_mono_strong) (rule up)
    from ref_list_loop_represents [OF a0 ne ob0 all0 notin rows, of 0]
    obtain r where r: "ref_list_loop a 0 (VRef ?n) ?h0 = Some r"
      and rel: "rel_sum (=) ?R r (process_loop js [])"
      by auto
    from rel have "rel_sum (=) (\<lambda>vh out. fst vh = VRef ?n \<and> ?R (snd vh) out)
        (returning (VRef ?n) r) (process_loop js [])"
      by (rule returning_rel)
    with JList v r a0 ob0 show ?thesis
      by (simp add: ref_process_places_def process_places_def alloc_def)
  next
    case (JDict kjs)
    with assms obtain a kvs where v: "v = VRef a" and a: "a < length h"
      and ob: "h ! a = ODict kvs"
      and all: "list_all2 (\<lambda>kv kj. fst kv = fst kj \<and> represents A h (snd kv) (snd kj)) kvs kjs"
      by (auto simp: represents_JDict)
    have a0: "a < length ?h0" using a by simp
    have ob0: "?h0 ! a = ODict kvs" using a ob by (simp add: nth_append)
    have "list_all2 (\<lambda>kv kj. represents ?A ?h0 (VStr (fst kv)) (JStr (fst kj))) kvs kjs"
      using all by (rule list.rel_mono_strong) simp
    then have "list_all2 (represents ?A ?h0)
        (map (\<lambda>kv. VStr (fst kv)) kvs) (map (\<lambda>kv. JStr (fst kv)) kjs)"
      by (simp add: list_all2_map1 list_all2_map2)
    from ref_items_loop_represents [OF this notin rows]
    have "rel_sum (=) (\<lambda>vh out. fst vh = VRef ?n \<and> ?R (snd vh) out)
        (returning (VRef ?n) (ref_items_loop (map (\<lambda>kv. VStr (fst kv)) kvs) (VRef ?n) ?h0))
        (process_loop (map (\<lambda>kv. JStr (fst kv)) kjs) [])"
      by (rule returning_rel)
    with JDict v a0 ob0 show ?thesis
      by (simp add: ref_process_places_def process_places_def alloc_def)
  qed
qed

lemma ref_sort_key_fn_represents:
  assumes "represents B h x row"
  shows "ref_sort_key_fn h x = sort_key_fn row"
proof (cases "py_subscript row ''Has Website''")
  case (Inl e)
  with ref_subscript_represents [OF assms, of "''Has Website''"]
  have "ref_subscript h x ''Has Website'' = Inl e"
    by (auto elim: rel_sum.cases)
  with Inl show ?thesis by (simp add: ref_sort_key_fn_def sort_key_fn_def)
next
  case (Inr j')
  with ref_subscript_represents [OF assms, of "''Has Website''"]
  obtain v' where v': "ref_subscript h x ''Has Website'' = Inr v'" and "represents B h v' j'"
    by (auto elim!: rel_sum.cases)
  from represents_VStr_iff [OF this(2), of "''Yes''"] v' Inr show ?thesis
    by (simp add: ref_sort_key_fn_def sort_key_fn_def)
qed

lemma ref_keyed_represents:
  assumes "list_all2 (represents B h) rs rows"
  shows "rel_sum (=) (list_all2 (\<lambda>kv kj. fst kv = fst kj \<and> represents B h (snd kv) (snd kj)))
     (ref_keyed h rs) (keyed sort_key_fn rows)"
  using assms
proof (induction rs arbitrary: rows)
  case Nil
  then show ?case by simp
next
  case (Cons r rs)
  from Cons.prems obtain row rows' where rows: "rows = row # rows'"
    and item: "represents B h r row" and rest: "list_all2 (represents B h) rs rows'"
    by (auto simp: list_all2_Cons1)
  note key = ref_sort_key_fn_represents [OF item]
  note ih = Cons.IH [OF rest]
  show ?case
  proof (cases "sort_key_fn row")
    case (Inl e)
    with key rows show ?thesis by simp
  next
    case (Inr k)
    show ?thesis
    proof (cases "keyed sort_key_fn rows'")
      case (Inl e)
      with ih have "ref_keyed h rs = Inl e" by (auto elim: rel_sum.cases)
      with Inl Inr key rows show ?thesis by simp
    next
      case inr: (Inr kjs)
      with ih obtain kvs where "ref_keyed h rs = Inr kvs"
        and "list_all2 (\<lambda>kv kj. fst kv = fst kj \<and> represents B h (snd kv) (snd kj)) kvs kjs"
        by (auto elim!: rel_sum.cases)
      with inr Inr key rows item show ?thesis by simp
    qed
  qed
qed

lemma insort_key_rel:
  assumes "list_all2 R xs ys" and "R x y" and "\<And>x y. R x y \<Longrightarrow> f x = g y"
  shows "list_all2 R (insort_key f x xs) (insort_key g y ys)"
  using assms(1,2)
proof (induction rule: list_all2_induct)
  case Nil
  then show ?case by simp
next
  case (Cons a as b bs)
  from assms(3) [OF Cons.hyps(1)] assms(3) [OF Cons.prems] Cons show ?case by simp
qed

lemma sort_key_rel:
  assumes "list_all2 R xs ys" and "\<And>x y. R x y \<Longrightarrow> f x = g y"
  shows "list_all2 R (sort_key f xs) (sort_key g ys)"
  using assms(1)
proof (induction rule: list_all2_induct)
  case Nil
  show ?case by simp
next
  case (Cons a as b bs)
  from insort_key_rel [OF Cons.IH Cons.hyps(1) assms(2)] show ?case by simp
qed

lemma ref_sort_represents:
  assumes "holds_rows p h rows"
  shows "rel_sum (=) (\<lambda>h' out. extends_except p h h' \<and> holds_rows p h' out)
     (ref_sort h (VRef p)) (py_sort sort_key_fn rows)"
proof -
  from assms obtain rs where p: "p < length h" and ob: "h ! p = OList rs"
    and all: "list_all2 (represents (- {p}) h) rs rows"
    by (auto simp: holds_rows_def)
  let ?K = "\<lambda>kv kj. fst kv = fst kj \<and> represents (- {p}) h (snd kv) (snd kj)"
  show ?thesis
  proof (cases "keyed sort_key_fn rows")
    case (Inl e)
    with ref_keyed_represents [OF all] have "ref_keyed h rs = Inl e"
      by (auto elim: rel_sum.cases)
    with Inl p ob show ?thesis by (simp add: py_sort_def)
  next
    case (Inr kjs)
    with ref_keyed_represents [OF all] obtain kvs where keys: "ref_keyed h rs = Inr kvs"
      and rel: "list_all2 ?K kvs kjs"
      by (auto elim!: rel_sum.cases)
    have "list_all2 ?K (sort_key fst kvs) (sort_key fst kjs)"
      using rel by (rule sort_key_rel) simp
    then have "list_all2 (\<lambda>kv kj. represents (- {p}) h (snd kv) (snd kj))
        (sort_key fst kvs) (sort_key fst kjs)"
      by (rule list.rel_mono_strong) simp
    then have sorted: "list_all2 (represents (- {p}) h)
        (map snd (sort_key fst kvs)) (map snd (sort_key fst kjs))"
      by (simp add: list_all2_map1 list_all2_map2)
    let ?h' = "h[p := OList (map snd (sort_key fst kvs))]"
    have ext: "extends_except p h ?h'" by (rule extends_except_update)
    have "list_all2 (represents (- {p}) ?h')
        (map snd (sort_key fst kvs)) (map snd (sort_key fst kjs))"
      using sorted ext by (rule list_all2_represents_extends) simp
    with p have "holds_rows p ?h' (map snd (sort_key fst kjs))"
      by (simp add: holds_rows_def)
    with ext keys Inr p ob show ?thesis by (simp add: py_sort_def)
  qed
qed


subsection \<open>What the objects of the start are after lines 148 and 151\<close>

lemma holds_rows_represents:
  assumes "holds_rows p h rows"
  shows "represents UNIV h (VRef p) (JList rows)"
proof -
  from assms obtain rs where p: "p < length h" and ob: "h ! p = OList rs"
    and all: "list_all2 (represents (- {p}) h) rs rows"
    by (auto simp: holds_rows_def)
  have "list_all2 (represents UNIV h) rs rows"
    using all by (rule list.rel_mono_strong) (erule represents_mono, simp)
  with p ob show ?thesis by (simp add: represents_JList)
qed

lemma ref_normalize_and_rank_represents:
  assumes "represents A h v j"
  shows "\<exists>r. ref_normalize_and_rank h v = Some r
     \<and> rel_sum (=)
          (\<lambda>vh out. fst vh = VRef (length h) \<and> take (length h) (snd vh) = h
             \<and> represents UNIV (snd vh) (fst vh) (JList out))
          r (normalize_and_rank j)"
proof -
  let ?n = "length h"
  from ref_process_places_represents [OF assms] obtain r1 where
    r1: "ref_process_places h v = Some r1"
    and rel1: "rel_sum (=)
          (\<lambda>vh out. fst vh = VRef ?n \<and> extends_except ?n (h @ [OList []]) (snd vh)
             \<and> holds_rows ?n (snd vh) out)
          r1 (process_places j)"
    by blast
  show ?thesis
  proof (cases "process_places j")
    case (Inl e)
    with rel1 have "r1 = Inl e" by (auto elim: rel_sum.cases)
    with r1 Inl show ?thesis
      by (simp add: ref_normalize_and_rank_def normalize_and_rank_def)
  next
    case (Inr pp)
    with rel1 obtain h1 where r1': "r1 = Inr (VRef ?n, h1)"
      and ext1: "extends_except ?n (h @ [OList []]) h1" and rows1: "holds_rows ?n h1 pp"
      by (auto elim!: rel_sum.cases)
    note sort = ref_sort_represents [OF rows1]
    show ?thesis
    proof (cases "py_sort sort_key_fn pp")
      case (Inl e)
      with sort have "ref_sort h1 (VRef ?n) = Inl e" by (auto elim: rel_sum.cases)
      with r1 r1' Inl Inr show ?thesis
        by (simp add: ref_normalize_and_rank_def normalize_and_rank_def returning_def)
    next
      case out: (Inr out)
      with sort obtain h2 where s: "ref_sort h1 (VRef ?n) = Inr h2"
        and ext2: "extends_except ?n h1 h2" and rows2: "holds_rows ?n h2 out"
        by (auto elim!: rel_sum.cases)
      have "extends_except ?n h (h @ [OList []])" by (rule extends_except_alloc)
      then have "extends_except ?n h h1" using ext1 by (rule extends_except_trans)
      then have "extends_except ?n h h2" using ext2 by (rule extends_except_trans)
      then have "take ?n h2 = h" by (rule extends_except_take) simp
      moreover note holds_rows_represents [OF rows2]
      ultimately show ?thesis
        using r1 r1' s out Inr
        by (simp add: ref_normalize_and_rank_def normalize_and_rank_def returning_def)
    qed
  qed
qed

lemma ref_process_place_extends:
  assumes "ref_process_place h place = Inr (v, h')"
  shows "extends_except p h h'"
proof -
  from assms obtain kvs where "h' = (h @ [ODict []]) @ [ODict kvs]"
    by (auto simp: ref_process_place_def alloc_def pbind_eq_Inr)
  then have "h' = h @ [ODict [], ODict kvs]" by simp
  then show ?thesis by (simp only: extends_except_alloc)
qed

lemma ref_append_extends:
  assumes "ref_append h (VRef p) x = Inr h'"
  shows "extends_except p h h'"
proof (cases "deref h p")
  case (Inl e)
  with assms show ?thesis by simp
next
  case (Inr ob)
  with assms show ?thesis
    by (cases ob) (auto simp: extends_except_update)
qed

lemma ref_loop_body_extends:
  assumes "ref_loop_body h place (VRef p) = Inr h'"
  shows "extends_except p h h'"
proof -
  from assms obtain v h1 where "ref_process_place h place = Inr (v, h1)"
    and "ref_append h1 (VRef p) v = Inr h'"
    by (auto simp: ref_loop_body_def pbind_eq_Inr)
  then show ?thesis
    by (blast intro: extends_except_trans ref_process_place_extends ref_append_extends)
qed

lemma ref_items_loop_extends:
  "ref_items_loop items (VRef p) h = Inr h' \<Longrightarrow> extends_except p h h'"
proof (induction items arbitrary: h)
  case Nil
  then show ?case by (simp add: extends_except_refl)
next
  case (Cons x xs)
  from Cons.prems obtain h1 where "ref_loop_body h x (VRef p) = Inr h1"
    and "ref_items_loop xs (VRef p) h1 = Inr h'"
    by (auto split: sum.splits)
  then show ?case
    by (blast intro: extends_except_trans ref_loop_body_extends Cons.IH)
qed

lemma ref_list_loop_extends_all:
  assumes "ref_list_loop a i pp h = Some y"
  shows "\<forall>h'. pp = VRef p \<longrightarrow> y = Inr h' \<longrightarrow> extends_except p h h'"
proof (rule ref_list_loop.raw_induct
    [where P = "\<lambda>a i pp h y. \<forall>h'. pp = VRef p \<longrightarrow> y = Inr h' \<longrightarrow> extends_except p h h'",
     OF _ assms],
    goal_cases)
  case (1 loop a i pp h y)
  show ?case
  proof (intro allI impI)
    fix h' assume pp: "pp = VRef p" and y: "y = Inr h'"
    show "extends_except p h h'"
    proof (cases "deref h a")
      case (Inl e)
      with 1(2) y show ?thesis by simp
    next
      case (Inr ob)
      show ?thesis
      proof (cases ob)
        case (ODict d)
        with Inr 1(2) y show ?thesis by simp
      next
        case (OList items)
        show ?thesis
        proof (cases "i < length items")
          case False
          with OList Inr 1(2) y show ?thesis by (simp add: extends_except_refl)
        next
          case True
          show ?thesis
          proof (cases "ref_loop_body h (items ! i) pp")
            case (Inl e)
            with True OList Inr 1(2) y show ?thesis by simp
          next
            case inr: (Inr h1)
            with True OList Inr 1(2) have "loop a (i + 1) pp h1 = Some y" by simp
            from 1(1) [OF this] pp y have "extends_except p h1 h'" by simp
            moreover from inr pp have "extends_except p h h1"
              by (simp add: ref_loop_body_extends)
            ultimately show ?thesis by (blast intro: extends_except_trans)
          qed
        qed
      qed
    qed
  qed
qed

lemma ref_list_loop_extends:
  "ref_list_loop a i (VRef p) h = Some (Inr h') \<Longrightarrow> extends_except p h h'"
  by (drule ref_list_loop_extends_all [where p = p]) simp

lemma ref_process_places_extends:
  assumes "ref_process_places h v = Some (Inr (pv, h'))"
  shows "pv = VRef (length h) \<and> extends_except (length h) h h'"
proof -
  let ?n = "length h" and ?h0 = "h @ [OList []]"
  have ext0: "extends_except ?n h ?h0" by (rule extends_except_alloc)
  have ret: "pv = VRef ?n \<and> extends_except ?n h h'"
    if "returning (VRef ?n) r = Inr (pv, h')" and "\<And>h1. r = Inr h1 \<Longrightarrow> extends_except ?n ?h0 h1"
    for r
  proof -
    from that(1) have "r = Inr h'" and "pv = VRef ?n"
      by (auto simp: returning_def split: sum.splits)
    with that(2) ext0 show ?thesis by (blast intro: extends_except_trans)
  qed
  show ?thesis
  proof (cases v)
    case (VRef a)
    show ?thesis
    proof (cases "deref ?h0 a")
      case (Inl e)
      with VRef assms show ?thesis by (simp add: ref_process_places_def alloc_def)
    next
      case (Inr ob)
      show ?thesis
      proof (cases ob)
        case (OList items)
        with Inr VRef assms obtain r where r: "ref_list_loop a 0 (VRef ?n) ?h0 = Some r"
          and "returning (VRef ?n) r = Inr (pv, h')"
          by (auto simp: ref_process_places_def alloc_def)
        from this(2) show ?thesis
          by (rule ret) (use r in \<open>auto dest: ref_list_loop_extends\<close>)
      next
        case (ODict d)
        with Inr VRef assms
        have "returning (VRef ?n)
            (ref_items_loop (map (\<lambda>kv. VStr (fst kv)) d) (VRef ?n) ?h0) = Inr (pv, h')"
          by (simp add: ref_process_places_def alloc_def)
        then show ?thesis
          by (rule ret) (auto dest: ref_items_loop_extends)
      qed
    qed
  next
    case (VStr s)
    with assms
    have "returning (VRef ?n)
        (ref_items_loop (map (\<lambda>c. VStr [c]) s) (VRef ?n) ?h0) = Inr (pv, h')"
      by (simp add: ref_process_places_def alloc_def)
    then show ?thesis
      by (rule ret) (auto dest: ref_items_loop_extends)
  qed (use assms in \<open>simp_all add: ref_process_places_def alloc_def\<close>)
qed

lemma ref_sort_extends:
  assumes "ref_sort h (VRef p) = Inr h'"
  shows "extends_except p h h'"
proof (cases "deref h p")
  case (Inl e)
  with assms show ?thesis by simp
next
  case (Inr ob)
  with assms show ?thesis
    by (cases ob) (auto simp: pbind_eq_Inr extends_except_update)
qed

lemma ref_normalize_and_rank_extends:
  assumes "ref_normalize_and_rank h v = Some (Inr (pv, h'))"
  shows "pv = VRef (length h) \<and> take (length h) h' = h"
proof -
  from assms obtain h1 where p: "ref_process_places h v = Some (Inr (pv, h1))"
    and s: "ref_sort h1 pv = Inr h'"
    by (auto simp: ref_normalize_and_rank_def returning_def split: option.splits sum.splits)
  from ref_process_places_extends [OF p] have pv: "pv = VRef (length h)"
    and ext1: "extends_except (length h) h h1" by simp_all
  from s pv have "extends_except (length h) h1 h'" by (simp add: ref_sort_extends)
  with ext1 have "extends_except (length h) h h'" by (rule extends_except_trans)
  then have "take (length h) h' = h" by (rule extends_except_take) simp
  with pv show ?thesis by simp
qed


lemma represents_take:
  assumes "represents A h v j" and "take (length h) h' = h"
  shows "represents A h' v j"
  using assms(1)
proof (rule represents_transfer)
  fix a assume "a \<in> A" and a: "a < length h"
  from assms(2) have "length (take (length h) h') = length h" by simp
  then have le: "length h \<le> length h'" by simp
  from a have "take (length h) h' ! a = h' ! a" by simp
  with assms(2) have "h' ! a = h ! a" by simp
  with \<open>a \<in> A\<close> a le show "a \<in> A \<and> a < length h' \<and> h' ! a = h ! a" by simp
qed


section \<open>The claims of the specification\<close>

text \<open>
  C1. For every list of RawPlace records, \<open>process_places\<close> returns one row per record, and
  the row of a record has a website (its \<open>Has Website\<close> field is \<open>Yes\<close>) exactly when the
  record has a \<open>websiteUri\<close> field holding a non-empty string. In that case the \<open>Website\<close>
  field of the row is that string; when the field is missing or the empty string, the row has no
  website, its \<open>Has Website\<close> field is \<open>No\<close> and its \<open>Website\<close> field is \<open>N/A\<close>.
\<close>

theorem website_presence:
  assumes "\<forall>p\<in>set raw. is_raw_place p"
  shows "\<exists>pp. process_places (JList raw) = Inr pp \<and> length pp = length raw \<and>
     (\<forall>i<length raw.
        (has_website (pp ! i) \<longleftrightarrow>
           (\<exists>u. field ''websiteUri'' (raw ! i) = Some (JStr u) \<and> u \<noteq> [])) \<and>
        (\<forall>u. field ''websiteUri'' (raw ! i) = Some (JStr u) \<and> u \<noteq> [] \<longrightarrow>
           field ''Website'' (pp ! i) = Some (JStr u)) \<and>
        (field ''websiteUri'' (raw ! i) = None \<or> field ''websiteUri'' (raw ! i) = Some (JStr []) \<longrightarrow>
           \<not> has_website (pp ! i) \<and> field ''Has Website'' (pp ! i) = Some (JStr ''No'')
           \<and> field ''Website'' (pp ! i) = Some (JStr ''N/A'')))"
proof -
  from process_places_raw_total [OF assms] obtain pp
    where pp: "process_places (JList raw) = Inr pp" ..
  from process_places_nth [OF pp] have len: "length pp = length raw"
    and nth: "\<forall>i<length raw. process_place (raw ! i) = Inr (pp ! i)" by simp_all
  have "\<forall>i<length raw.
        (has_website (pp ! i) \<longleftrightarrow>
           (\<exists>u. field ''websiteUri'' (raw ! i) = Some (JStr u) \<and> u \<noteq> [])) \<and>
        (\<forall>u. field ''websiteUri'' (raw ! i) = Some (JStr u) \<and> u \<noteq> [] \<longrightarrow>
           field ''Website'' (pp ! i) = Some (JStr u)) \<and>
        (field ''websiteUri'' (raw ! i) = None \<or> field ''websiteUri'' (raw ! i) = Some (JStr []) \<longrightarrow>
           \<not> has_website (pp ! i) \<and> field ''Has Website'' (pp ! i) = Some (JStr ''No'')
           \<and> field ''Website'' (pp ! i) = Some (JStr ''N/A''))"
  proof (intro allI impI)
    fix i assume i: "i < length raw"
    then have "is_raw_place (raw ! i)" using assms by simp
    from field_process_place_raw [OF this] nth i
    show "(has_website (pp ! i) \<longleftrightarrow>
           (\<exists>u. field ''websiteUri'' (raw ! i) = Some (JStr u) \<and> u \<noteq> [])) \<and>
        (\<forall>u. field ''websiteUri'' (raw ! i) = Some (JStr u) \<and> u \<noteq> [] \<longrightarrow>
           field ''Website'' (pp ! i) = Some (JStr u)) \<and>
        (field ''websiteUri'' (raw ! i) = None \<or> field ''websiteUri'' (raw ! i) = Some (JStr []) \<longrightarrow>
           \<not> has_website (pp ! i) \<and> field ''Has Website'' (pp ! i) = Some (JStr ''No'')
           \<and> field ''Website'' (pp ! i) = Some (JStr ''N/A''))"
      by auto
  qed
  with pp len show ?thesis by blast
qed

theorem website_presence_witness:
  "is_raw_place shop_x \<and> is_raw_place bar_y \<and> is_raw_place scenario_a \<and>
   (\<exists>pp. process_places (JList three_places) = Inr pp \<and> length pp = 3 \<and>
      has_website (pp ! 0) \<and> field ''Website'' (pp ! 0) = Some (JStr ''http://x.com'') \<and>
      \<not> has_website (pp ! 1) \<and> field ''Website'' (pp ! 1) = Some (JStr ''N/A'') \<and>
      \<not> has_website (pp ! 2) \<and> field ''Website'' (pp ! 2) = Some (JStr ''N/A''))"
proof -
  have raw: "is_raw_place shop_x \<and> is_raw_place bar_y \<and> is_raw_place scenario_a"
    by (simp add: shop_x_def bar_y_def scenario_a_def)
  then have h: "\<forall>p\<in>set three_places. is_raw_place p"
    by (simp add: three_places_def)
  from website_presence [OF h] obtain pp where
    pp: "process_places (JList three_places) = Inr pp" and len: "length pp = length three_places"
    and each: "\<forall>i<length three_places.
        (has_website (pp ! i) \<longleftrightarrow>
           (\<exists>u. field ''websiteUri'' (three_places ! i) = Some (JStr u) \<and> u \<noteq> [])) \<and>
        (\<forall>u. field ''websiteUri'' (three_places ! i) = Some (JStr u) \<and> u \<noteq> [] \<longrightarrow>
           field ''Website'' (pp ! i) = Some (JStr u)) \<and>
        (field ''websiteUri'' (three_places ! i) = None
           \<or> field ''websiteUri'' (three_places ! i) = Some (JStr []) \<longrightarrow>
           \<not> has_website (pp ! i) \<and> field ''Has Website'' (pp ! i) = Some (JStr ''No'')
           \<and> field ''Website'' (pp ! i) = Some (JStr ''N/A''))"
    by blast
  have "has_website (pp ! 0) \<and> field ''Website'' (pp ! 0) = Some (JStr ''http://x.com'')"
    using each [rule_format, of 0] by (simp add: three_places_def shop_x_def)
  moreover have "\<not> has_website (pp ! 1) \<and> field ''Website'' (pp ! 1) = Some (JStr ''N/A'')"
    using each [rule_format, of 1] by (simp add: three_places_def bar_y_def)
  moreover have "\<not> has_website (pp ! 2) \<and> field ''Website'' (pp ! 2) = Some (JStr ''N/A'')"
    using each [rule_format, of 2] by (simp add: three_places_def scenario_a_def)
  moreover have "length pp = 3"
    using len by (simp add: three_places_def)
  ultimately show ?thesis using raw pp by blast
qed

text \<open>
  C2. For every list of RawPlace records the ranked list exists, and at no two positions
  \<open>i < j\<close> of it does the row at \<open>i\<close> have a website while the row at \<open>j\<close> has none.
\<close>

theorem ranked_order:
  assumes "\<forall>p\<in>set raw. is_raw_place p"
  shows "\<exists>out. normalize_and_rank (JList raw) = Inr out \<and>
     (\<forall>i j. i < j \<and> j < length out \<longrightarrow> \<not> (has_website (out ! i) \<and> \<not> has_website (out ! j)))"
proof -
  from normalize_and_rank_raw_total [OF assms] obtain out
    where out: "normalize_and_rank (JList raw) = Inr out" by blast
  have "\<forall>i j. i < j \<and> j < length out \<longrightarrow> \<not> (has_website (out ! i) \<and> \<not> has_website (out ! j))"
    using normalize_and_rank_order [OF out] by blast
  with out show ?thesis by blast
qed

theorem ranked_order_witness:
  "is_raw_place shop_x \<and> is_raw_place bar_y \<and> is_raw_place scenario_a \<and>
   (\<exists>out. normalize_and_rank (JList three_places) = Inr out \<and>
      \<not> (has_website (out ! 0) \<and> \<not> has_website (out ! 1)) \<and>
      \<not> (has_website (out ! 0) \<and> \<not> has_website (out ! 2)) \<and>
      \<not> (has_website (out ! 1) \<and> \<not> has_website (out ! 2)))"
proof -
  have raw: "is_raw_place shop_x \<and> is_raw_place bar_y \<and> is_raw_place scenario_a"
    by (simp add: shop_x_def bar_y_def scenario_a_def)
  then have h: "\<forall>p\<in>set three_places. is_raw_place p"
    by (simp add: three_places_def)
  from ranked_order [OF h] obtain out where
    out: "normalize_and_rank (JList three_places) = Inr out"
    and ord: "\<forall>i j. i < j \<and> j < length out \<longrightarrow> \<not> (has_website (out ! i) \<and> \<not> has_website (out ! j))"
    by blast
  from out have "length out = 3"
    by (auto simp add: normalize_and_rank_def process_places_def process_place_def
        has_website_value_def py_sort_def sort_key_fn_def three_places_def shop_x_def bar_y_def
        scenario_a_def)
  then have "\<not> (has_website (out ! 0) \<and> \<not> has_website (out ! 1))"
    and "\<not> (has_website (out ! 0) \<and> \<not> has_website (out ! 2))"
    and "\<not> (has_website (out ! 1) \<and> \<not> has_website (out ! 2))"
    using ord [rule_format, of 0 1] ord [rule_format, of 0 2] ord [rule_format, of 1 2]
    by simp_all
  with raw out show ?thesis by blast
qed

text \<open>
  C4. For every list of RawPlace records, \<open>process_places\<close> returns a list of the same
  length whose row at each position is the row of the record at that position, and the ranked
  list has that length too and the same rows as a multiset: no row is dropped, merged or added.
\<close>

theorem count_preserved:
  assumes "\<forall>p\<in>set raw. is_raw_place p"
  shows "\<exists>pp out. process_places (JList raw) = Inr pp \<and> length pp = length raw
     \<and> (\<forall>i<length raw. process_place (raw ! i) = Inr (pp ! i))
     \<and> normalize_and_rank (JList raw) = Inr out \<and> length out = length raw
     \<and> mset out = mset pp"
proof -
  from normalize_and_rank_raw_total [OF assms] obtain pp out
    where pp: "process_places (JList raw) = Inr pp"
      and out: "normalize_and_rank (JList raw) = Inr out" by blast
  from normalize_and_rank_Inr [OF out] pp
  have part: "out = filter (\<lambda>x. \<not> has_website x) pp @ filter has_website pp" by simp
  then have m: "mset out = mset pp" by (simp only: mset_partition)
  then have "length out = length pp" by (rule mset_eq_length)
  with process_places_nth [OF pp] pp out m show ?thesis by simp
qed

theorem count_preserved_witness:
  "is_raw_place shop_x \<and> is_raw_place bar_y \<and> is_raw_place scenario_a \<and>
   (\<exists>pp out. process_places (JList three_places) = Inr pp \<and> length pp = 3
      \<and> process_place shop_x = Inr (pp ! 0) \<and> process_place bar_y = Inr (pp ! 1)
      \<and> process_place scenario_a = Inr (pp ! 2)
      \<and> normalize_and_rank (JList three_places) = Inr out \<and> length out = 3
      \<and> mset out = mset pp)"
proof -
  have raw: "is_raw_place shop_x \<and> is_raw_place bar_y \<and> is_raw_place scenario_a"
    by (simp add: shop_x_def bar_y_def scenario_a_def)
  then have h: "\<forall>p\<in>set three_places. is_raw_place p"
    by (simp add: three_places_def)
  from count_preserved [OF h] obtain pp out where
    pp: "process_places (JList three_places) = Inr pp" and "length pp = length three_places"
    and each: "\<forall>i<length three_places. process_place (three_places ! i) = Inr (pp ! i)"
    and out: "normalize_and_rank (JList three_places) = Inr out"
    and "length out = length three_places" and m: "mset out = mset pp"
    by blast
  then have "length pp = 3" and "length out = 3"
    by (simp_all add: three_places_def)
  moreover have "process_place shop_x = Inr (pp ! 0)"
    using each [rule_format, of 0] by (simp add: three_places_def)
  moreover have "process_place bar_y = Inr (pp ! 1)"
    using each [rule_format, of 1] by (simp add: three_places_def)
  moreover have "process_place scenario_a = Inr (pp ! 2)"
    using each [rule_format, of 2] by (simp add: three_places_def)
  ultimately show ?thesis using raw pp out m by blast
qed

text \<open>
  C5. For every RawPlace record the row has exactly the five fields \<open>Name\<close>, \<open>Address\<close>,
  \<open>Price Level\<close>, \<open>Has Website\<close> and \<open>Website\<close>, each holding a string (none is missing
  or None). A missing display-name text gives the name \<open>Unknown\<close>, a missing address
  \<open>N/A\<close>, a missing price level \<open>N/A\<close>, a missing website URI the website \<open>N/A\<close>; a
  field that is there is passed on. The input of Scenario A, a display name and an address only,
  gives exactly the row of Scenario A, from \<open>process_places\<close> and after the ranking.
\<close>

theorem defaults_and_presence:
  "(\<forall>place. is_raw_place place \<longrightarrow>
      (\<exists>name address price yes_no site.
         process_place place =
           Inr (JDict [(''Name'', JStr name), (''Address'', JStr address),
                       (''Price Level'', JStr price), (''Has Website'', JStr yes_no),
                       (''Website'', JStr site)])
       \<and> (display_text place = None \<longrightarrow> name = ''Unknown'')
       \<and> (\<forall>t. display_text place = Some (JStr t) \<longrightarrow> name = t)
       \<and> (field ''formattedAddress'' place = None \<longrightarrow> address = ''N/A'')
       \<and> (\<forall>a. field ''formattedAddress'' place = Some (JStr a) \<longrightarrow> address = a)
       \<and> (field ''priceLevel'' place = None \<longrightarrow> price = ''N/A'')
       \<and> (\<forall>a. field ''priceLevel'' place = Some (JStr a) \<longrightarrow> price = a)
       \<and> (field ''websiteUri'' place = None \<longrightarrow> site = ''N/A'')))
   \<and> is_raw_place scenario_a
   \<and> process_places (JList [scenario_a]) = Inr [scenario_a_row]
   \<and> normalize_and_rank (JList [scenario_a]) = Inr [scenario_a_row]"
proof (intro conjI allI impI)
  fix place assume "is_raw_place place"
  then show "\<exists>name address price yes_no site.
         process_place place =
           Inr (JDict [(''Name'', JStr name), (''Address'', JStr address),
                       (''Price Level'', JStr price), (''Has Website'', JStr yes_no),
                       (''Website'', JStr site)])
       \<and> (display_text place = None \<longrightarrow> name = ''Unknown'')
       \<and> (\<forall>t. display_text place = Some (JStr t) \<longrightarrow> name = t)
       \<and> (field ''formattedAddress'' place = None \<longrightarrow> address = ''N/A'')
       \<and> (\<forall>a. field ''formattedAddress'' place = Some (JStr a) \<longrightarrow> address = a)
       \<and> (field ''priceLevel'' place = None \<longrightarrow> price = ''N/A'')
       \<and> (\<forall>a. field ''priceLevel'' place = Some (JStr a) \<longrightarrow> price = a)
       \<and> (field ''websiteUri'' place = None \<longrightarrow> site = ''N/A'')"
    by (rule process_place_raw_row)
next
  show "is_raw_place scenario_a"
    by (simp add: scenario_a_def)
next
  show "process_places (JList [scenario_a]) = Inr [scenario_a_row]"
    by (simp add: process_places_def process_place_def has_website_value_def
        scenario_a_def scenario_a_row_def)
next
  show "normalize_and_rank (JList [scenario_a]) = Inr [scenario_a_row]"
    by (simp add: normalize_and_rank_def py_sort_def sort_key_fn_def process_places_def
        process_place_def has_website_value_def scenario_a_def scenario_a_row_def)
qed

theorem defaults_and_presence_witness:
  "is_raw_place bar_y \<and>
   (\<exists>yes_no site. process_place bar_y =
      Inr (JDict [(''Name'', JStr ''Unknown''), (''Address'', JStr ''2 Side St''),
                  (''Price Level'', JStr ''N/A''), (''Has Website'', JStr yes_no),
                  (''Website'', JStr site)]))"
proof -
  have raw: "is_raw_place bar_y"
    by (simp add: bar_y_def)
  from defaults_and_presence [THEN conjunct1, rule_format, OF raw]
  obtain name address price yes_no site where
    row: "process_place bar_y =
           Inr (JDict [(''Name'', JStr name), (''Address'', JStr address),
                       (''Price Level'', JStr price), (''Has Website'', JStr yes_no),
                       (''Website'', JStr site)])"
    and n: "display_text bar_y = None \<longrightarrow> name = ''Unknown''"
    and a: "\<forall>a. field ''formattedAddress'' bar_y = Some (JStr a) \<longrightarrow> address = a"
    and p: "field ''priceLevel'' bar_y = None \<longrightarrow> price = ''N/A''"
    and w: "field ''websiteUri'' bar_y = None \<longrightarrow> site = ''N/A''"
    by (elim exE conjE) (rule that; assumption)
  from n have "name = ''Unknown''" by (simp add: bar_y_def display_text_def)
  moreover from a have "address = ''2 Side St''" by (simp add: bar_y_def)
  moreover from p have "price = ''N/A''" by (simp add: bar_y_def)
  ultimately have "process_place bar_y =
      Inr (JDict [(''Name'', JStr ''Unknown''), (''Address'', JStr ''2 Side St''),
                  (''Price Level'', JStr ''N/A''), (''Has Website'', JStr yes_no),
                  (''Website'', JStr site)])"
    using row by simp
  then have "\<exists>yes_no site. process_place bar_y =
      Inr (JDict [(''Name'', JStr ''Unknown''), (''Address'', JStr ''2 Side St''),
                  (''Price Level'', JStr ''N/A''), (''Has Website'', JStr yes_no),
                  (''Website'', JStr site)])"
    by (intro exI)
  with raw show ?thesis by (rule conjI)
qed

text \<open>
  C3. For every list of RawPlace records the ranked list is the rows without a website, in
  the order of their records, followed by the rows with a website, in the order of their
  records: for each value of hasWebsite, the rows with that value are in the ranked list in
  the order they have in the list \<open>process_places\<close> returns, whose row at each position is the
  row of the record at that position. Running lines 148 and 151 again on the state they leave,
  in which \<open>places\<close> is unchanged, gives that state again, with the same ranked list.
\<close>

theorem stable_ranking:
  assumes "\<forall>p\<in>set raw. is_raw_place p"
  shows "\<exists>pp out. process_places (JList raw) = Inr pp \<and> length pp = length raw
     \<and> (\<forall>i<length raw. process_place (raw ! i) = Inr (pp ! i))
     \<and> normalize_and_rank (JList raw) = Inr out
     \<and> out = filter (\<lambda>x. \<not> has_website x) pp @ filter has_website pp
     \<and> (\<forall>b. filter (\<lambda>x. has_website x = b) out = filter (\<lambda>x. has_website x = b) pp)
     \<and> (\<forall>s. places s = JList raw \<longrightarrow>
           (\<exists>s'. normalize_and_rank_stmts s = Inr s' \<and> processed_places s' = out
              \<and> normalize_and_rank_stmts s' = Inr s'))"
proof -
  from normalize_and_rank_raw_total [OF assms] obtain pp out
    where pp: "process_places (JList raw) = Inr pp"
      and out: "normalize_and_rank (JList raw) = Inr out" by blast
  from normalize_and_rank_Inr [OF out] pp
  have part: "out = filter (\<lambda>x. \<not> has_website x) pp @ filter has_website pp" by simp
  have stable: "\<forall>b. filter (\<lambda>x. has_website x = b) out = filter (\<lambda>x. has_website x = b) pp"
    unfolding part by (intro allI filter_partition_same)
  have rerun: "\<forall>s. places s = JList raw \<longrightarrow>
           (\<exists>s'. normalize_and_rank_stmts s = Inr s' \<and> processed_places s' = out
              \<and> normalize_and_rank_stmts s' = Inr s')"
  proof (intro allI impI)
    fix s :: script
    assume s: "places s = JList raw"
    let ?s' = "s\<lparr>processed_places := out\<rparr>"
    have first: "normalize_and_rank_stmts s = Inr ?s'"
      using out s by (simp add: normalize_and_rank_stmts_Inr)
    have "places ?s' = JList raw" using s by simp
    then have "normalize_and_rank_stmts ?s' = Inr (?s'\<lparr>processed_places := out\<rparr>)"
      using out by (simp add: normalize_and_rank_stmts_Inr)
    then have again: "normalize_and_rank_stmts ?s' = Inr ?s'" by simp
    have "processed_places ?s' = out" by simp
    with first again
    show "\<exists>s'. normalize_and_rank_stmts s = Inr s' \<and> processed_places s' = out
              \<and> normalize_and_rank_stmts s' = Inr s'"
      by blast
  qed
  from process_places_nth [OF pp] pp out part stable rerun show ?thesis by blast
qed

theorem stable_ranking_witness:
  "is_raw_place shop_x \<and> is_raw_place bar_y \<and> is_raw_place scenario_a \<and>
   (\<exists>pp out. process_places (JList three_places) = Inr pp
      \<and> normalize_and_rank (JList three_places) = Inr out
      \<and> filter (\<lambda>x. has_website x = True) out = filter (\<lambda>x. has_website x = True) pp
      \<and> filter (\<lambda>x. has_website x = False) out = filter (\<lambda>x. has_website x = False) pp
      \<and> (\<exists>s'. normalize_and_rank_stmts three_places_script = Inr s' \<and> processed_places s' = out
              \<and> normalize_and_rank_stmts s' = Inr s'))"
proof -
  have raw: "is_raw_place shop_x \<and> is_raw_place bar_y \<and> is_raw_place scenario_a"
    by (simp add: shop_x_def bar_y_def scenario_a_def)
  then have h: "\<forall>p\<in>set three_places. is_raw_place p"
    by (simp add: three_places_def)
  have p: "places three_places_script = JList three_places"
    by (simp add: three_places_script_def)
  from stable_ranking [OF h] obtain pp out where
    pp: "process_places (JList three_places) = Inr pp"
    and out: "normalize_and_rank (JList three_places) = Inr out"
    and stable: "\<forall>b. filter (\<lambda>x. has_website x = b) out = filter (\<lambda>x. has_website x = b) pp"
    and rerun: "\<forall>s. places s = JList three_places \<longrightarrow>
           (\<exists>s'. normalize_and_rank_stmts s = Inr s' \<and> processed_places s' = out
              \<and> normalize_and_rank_stmts s' = Inr s')"
    by (elim exE conjE) (rule that; assumption)
  from rerun p have "\<exists>s'. normalize_and_rank_stmts three_places_script = Inr s'
      \<and> processed_places s' = out \<and> normalize_and_rank_stmts s' = Inr s'"
    by (elim allE impE) assumption+
  moreover from stable
  have "filter (\<lambda>x. has_website x = True) out = filter (\<lambda>x. has_website x = True) pp"
    by (elim allE)
  moreover from stable
  have "filter (\<lambda>x. has_website x = False) out = filter (\<lambda>x. has_website x = False) pp"
    by (elim allE)
  ultimately show ?thesis using raw pp out by blast
qed

text \<open>
  C8. When the query is empty, or the API key is empty, the handler renders one error widget,
  the validation message for the first empty input, and nothing else happens: no call of
  \<open>requests.post\<close> is made (\<open>search_places\<close> is not run), and the variables \<open>result\<close>
  and \<open>error\<close> keep their values, so no search error is produced.
\<close>

theorem validation_before_request:
  assumes "search_query = [] \<or> api_key = []"
  shows "\<exists>s'. search_clicked_handler net search_query api_key s = Inr s'
     \<and> posts s' = posts s \<and> error s' = error s \<and> result s' = result s
     \<and> places s' = places s \<and> processed_places s' = processed_places s
     \<and> rendered s' = rendered s @
          [StError (if search_query = [] then ''Please enter a search query''
                    else ''Please provide your Google Places API key in the settings above'')]"
  using assms by (auto simp: search_clicked_handler_def render_def)

theorem validation_before_request_witness:
  "(([] :: string) = [] \<or> ''key'' = []) \<and> (''cafes'' = [] \<or> ([] :: string) = []) \<and>
   (\<exists>s'. search_clicked_handler (const_network (Returned null_response)) [] ''key'' empty_script
           = Inr s'
      \<and> posts s' = [] \<and> error s' = None
      \<and> rendered s' = [StError ''Please enter a search query'']) \<and>
   (\<exists>s'. search_clicked_handler (const_network (Returned null_response)) ''cafes'' [] empty_script
           = Inr s'
      \<and> posts s' = [] \<and> error s' = None
      \<and> rendered s' =
           [StError ''Please provide your Google Places API key in the settings above''])"
proof -
  have h1: "([] :: string) = [] \<or> ''key'' = []" by simp
  have h2: "''cafes'' = [] \<or> ([] :: string) = []" by simp
  from validation_before_request [OF h1, of "const_network (Returned null_response)" empty_script]
  have "\<exists>s'. search_clicked_handler (const_network (Returned null_response)) [] ''key'' empty_script
           = Inr s'
      \<and> posts s' = [] \<and> error s' = None
      \<and> rendered s' = [StError ''Please enter a search query'']"
    by (auto simp: empty_script_def)
  moreover
  from validation_before_request [OF h2, of "const_network (Returned null_response)" empty_script]
  have "\<exists>s'. search_clicked_handler (const_network (Returned null_response)) ''cafes'' [] empty_script
           = Inr s'
      \<and> posts s' = [] \<and> error s' = None
      \<and> rendered s' =
           [StError ''Please provide your Google Places API key in the settings above'']"
    by (auto simp: empty_script_def)
  ultimately show ?thesis using h1 h2 by (intro conjI)
qed

text \<open>
  C9. Lines 148 and 151 on objects. Whatever the store and the value of \<open>places\<close>, a run
  that returns leaves every object that was there as it was: it writes only objects it has
  made, and what it returns is a reference to a new list. When \<open>places\<close> is a JSON value
  in the store, the run returns or raises, and which of the two, the exception raised and the
  rows of the new list are those of \<open>normalize_and_rank\<close> on that JSON value; after a run
  that returns \<open>places\<close> is the same JSON value still. On a list of RawPlace records the
  run returns. So two runs on equal values of \<open>places\<close>, in any two stores and at any
  addresses, raise the same exception or return lists with equal rows. In the script the two
  lines read the state through \<open>places\<close> alone and write \<open>processed_places\<close> alone:
  the requests sent and the widgets rendered are as they were.
\<close>

theorem normalize_and_rank_pure:
  "(\<forall>pv h'. ref_normalize_and_rank h v = Some (Inr (pv, h')) \<longrightarrow>
       pv = VRef (length h) \<and> take (length h) h' = h)
   \<and> (\<forall>j. represents UNIV h v j \<longrightarrow>
         (\<forall>e. normalize_and_rank j = Inl e \<longrightarrow> ref_normalize_and_rank h v = Some (Inl e))
         \<and> (\<forall>out. normalize_and_rank j = Inr out \<longrightarrow>
               (\<exists>h'. ref_normalize_and_rank h v = Some (Inr (VRef (length h), h'))
                  \<and> take (length h) h' = h
                  \<and> represents UNIV h' v j
                  \<and> represents UNIV h' (VRef (length h)) (JList out))))
   \<and> (\<forall>raw. represents UNIV h v (JList raw) \<and> (\<forall>p\<in>set raw. is_raw_place p) \<longrightarrow>
         (\<exists>out h'. normalize_and_rank (JList raw) = Inr out
            \<and> ref_normalize_and_rank h v = Some (Inr (VRef (length h), h'))
            \<and> take (length h) h' = h
            \<and> represents UNIV h' v (JList raw)
            \<and> represents UNIV h' (VRef (length h)) (JList out)))
   \<and> (\<forall>j h2 v2. represents UNIV h v j \<and> represents UNIV h2 v2 j \<longrightarrow>
         (\<exists>e. ref_normalize_and_rank h v = Some (Inl e)
              \<and> ref_normalize_and_rank h2 v2 = Some (Inl e))
         \<or> (\<exists>out pv h' pv2 h2'.
               ref_normalize_and_rank h v = Some (Inr (pv, h'))
               \<and> ref_normalize_and_rank h2 v2 = Some (Inr (pv2, h2'))
               \<and> represents UNIV h' pv (JList out)
               \<and> represents UNIV h2' pv2 (JList out)))
   \<and> (\<forall>s e. normalize_and_rank (places s) = Inl e \<longrightarrow> normalize_and_rank_stmts s = Inl e)
   \<and> (\<forall>s out. normalize_and_rank (places s) = Inr out \<longrightarrow>
         normalize_and_rank_stmts s = Inr (s\<lparr>processed_places := out\<rparr>))"
proof -
  have returns: "\<exists>h'. ref_normalize_and_rank h v = Some (Inr (VRef (length h), h'))
                  \<and> take (length h) h' = h
                  \<and> represents UNIV h' v j
                  \<and> represents UNIV h' (VRef (length h)) (JList out)"
    if rep: "represents UNIV h v j" and out: "normalize_and_rank j = Inr out" for j out
  proof -
    from ref_normalize_and_rank_represents [of UNIV h v j] rep out
    obtain h' where run: "ref_normalize_and_rank h v = Some (Inr (VRef (length h), h'))"
      and same: "take (length h) h' = h"
      and rows: "represents UNIV h' (VRef (length h)) (JList out)"
      by (auto elim!: rel_sum.cases)
    from rep same have "represents UNIV h' v j" by (rule represents_take)
    with run same rows show ?thesis by blast
  qed
  show ?thesis
  proof (intro conjI allI impI)
    fix pv h' assume "ref_normalize_and_rank h v = Some (Inr (pv, h'))"
    then have "pv = VRef (length h) \<and> take (length h) h' = h"
      by (rule ref_normalize_and_rank_extends)
    then show "pv = VRef (length h)" and "take (length h) h' = h" by simp_all
  next
    fix j e assume "represents UNIV h v j" and "normalize_and_rank j = Inl e"
    with ref_normalize_and_rank_represents [of UNIV h v j]
    show "ref_normalize_and_rank h v = Some (Inl e)"
      by (auto elim: rel_sum.cases)
  next
    fix j out assume "represents UNIV h v j" and "normalize_and_rank j = Inr out"
    then show "\<exists>h'. ref_normalize_and_rank h v = Some (Inr (VRef (length h), h'))
                  \<and> take (length h) h' = h
                  \<and> represents UNIV h' v j
                  \<and> represents UNIV h' (VRef (length h)) (JList out)"
      by (rule returns)
  next
    fix raw assume h: "represents UNIV h v (JList raw) \<and> (\<forall>p\<in>set raw. is_raw_place p)"
    then have rep: "represents UNIV h v (JList raw)" and raw: "\<forall>p\<in>set raw. is_raw_place p"
      by simp_all
    from normalize_and_rank_raw_total [OF raw] obtain out
      where out: "normalize_and_rank (JList raw) = Inr out" by blast
    from returns [OF rep out] out
    show "\<exists>out h'. normalize_and_rank (JList raw) = Inr out
            \<and> ref_normalize_and_rank h v = Some (Inr (VRef (length h), h'))
            \<and> take (length h) h' = h
            \<and> represents UNIV h' v (JList raw)
            \<and> represents UNIV h' (VRef (length h)) (JList out)"
      by blast
  next
    fix j h2 v2 assume both: "represents UNIV h v j \<and> represents UNIV h2 v2 j"
    note r1 = ref_normalize_and_rank_represents [of UNIV h v j]
    note r2 = ref_normalize_and_rank_represents [of UNIV h2 v2 j]
    show "(\<exists>e. ref_normalize_and_rank h v = Some (Inl e)
              \<and> ref_normalize_and_rank h2 v2 = Some (Inl e))
         \<or> (\<exists>out pv h' pv2 h2'.
               ref_normalize_and_rank h v = Some (Inr (pv, h'))
               \<and> ref_normalize_and_rank h2 v2 = Some (Inr (pv2, h2'))
               \<and> represents UNIV h' pv (JList out)
               \<and> represents UNIV h2' pv2 (JList out))"
    proof (cases "normalize_and_rank j")
      case (Inl e)
      with r1 r2 both have "ref_normalize_and_rank h v = Some (Inl e)"
        and "ref_normalize_and_rank h2 v2 = Some (Inl e)"
        by (auto elim: rel_sum.cases)
      then show ?thesis by blast
    next
      case (Inr out)
      with r1 both obtain h' where "ref_normalize_and_rank h v = Some (Inr (VRef (length h), h'))"
        and "represents UNIV h' (VRef (length h)) (JList out)"
        by (auto elim!: rel_sum.cases)
      moreover from Inr r2 both obtain h2'
        where "ref_normalize_and_rank h2 v2 = Some (Inr (VRef (length h2), h2'))"
        and "represents UNIV h2' (VRef (length h2)) (JList out)"
        by (auto elim!: rel_sum.cases)
      ultimately show ?thesis by blast
    qed
  next
    fix s :: script and e assume "normalize_and_rank (places s) = Inl e"
    then show "normalize_and_rank_stmts s = Inl e"
      by (rule normalize_and_rank_stmts_Inl)
  next
    fix s :: script and out assume "normalize_and_rank (places s) = Inr out"
    then show "normalize_and_rank_stmts s = Inr (s\<lparr>processed_places := out\<rparr>)"
      by (rule normalize_and_rank_stmts_Inr)
  qed
qed

theorem normalize_and_rank_pure_witness:
  "represents UNIV three_places_store (VRef 5) (JList three_places)
   \<and> represents UNIV three_places_store_shifted (VRef 6) (JList three_places)
   \<and> (\<exists>out h' h2'. normalize_and_rank (JList three_places) = Inr out
         \<and> ref_normalize_and_rank three_places_store (VRef 5) = Some (Inr (VRef 6, h'))
         \<and> take 6 h' = three_places_store
         \<and> represents UNIV h' (VRef 5) (JList three_places)
         \<and> represents UNIV h' (VRef 6) (JList out)
         \<and> ref_normalize_and_rank three_places_store_shifted (VRef 6) = Some (Inr (VRef 7, h2'))
         \<and> take 7 h2' = three_places_store_shifted
         \<and> represents UNIV h2' (VRef 6) (JList three_places)
         \<and> represents UNIV h2' (VRef 7) (JList out))
   \<and> (\<exists>t. normalize_and_rank_stmts three_places_script_later = Inr t
         \<and> posts t = posts three_places_script_later
         \<and> rendered t = rendered three_places_script_later
         \<and> places t = JList three_places)"
proof -
  have rep1: "represents UNIV three_places_store (VRef 5) (JList three_places)"
    by (simp add: three_places_store_def three_places_def shop_x_def bar_y_def scenario_a_def
        represents_JList represents_JDict)
  have rep2: "represents UNIV three_places_store_shifted (VRef 6) (JList three_places)"
    by (simp add: three_places_store_shifted_def three_places_def shop_x_def bar_y_def
        scenario_a_def represents_JList represents_JDict)
  have len1: "length three_places_store = 6" by (simp add: three_places_store_def)
  have len2: "length three_places_store_shifted = 7" by (simp add: three_places_store_shifted_def)
  have raw: "\<forall>p\<in>set three_places. is_raw_place p"
    by (simp add: three_places_def shop_x_def bar_y_def scenario_a_def)
  note t1 = normalize_and_rank_pure [of three_places_store "VRef 5"]
  note t2 = normalize_and_rank_pure [of three_places_store_shifted "VRef 6"]
  from t1 [THEN conjunct2, THEN conjunct2, THEN conjunct1, rule_format, OF conjI [OF rep1 raw]]
  obtain out h' where out: "normalize_and_rank (JList three_places) = Inr out"
    and "ref_normalize_and_rank three_places_store (VRef 5) = Some (Inr (VRef 6, h'))"
    and "take 6 h' = three_places_store"
    and "represents UNIV h' (VRef 5) (JList three_places)"
    and "represents UNIV h' (VRef 6) (JList out)"
    unfolding len1 by (elim exE conjE) (rule that; assumption)
  moreover
  from t2 [THEN conjunct2, THEN conjunct1, rule_format, OF rep2, THEN conjunct2, rule_format, OF out]
  obtain h2' where
    "ref_normalize_and_rank three_places_store_shifted (VRef 6) = Some (Inr (VRef 7, h2'))"
    and "take 7 h2' = three_places_store_shifted"
    and "represents UNIV h2' (VRef 6) (JList three_places)"
    and "represents UNIV h2' (VRef 7) (JList out)"
    unfolding len2 by (elim exE conjE) (rule that; assumption)
  ultimately have stores: "\<exists>out h' h2'. normalize_and_rank (JList three_places) = Inr out
         \<and> ref_normalize_and_rank three_places_store (VRef 5) = Some (Inr (VRef 6, h'))
         \<and> take 6 h' = three_places_store
         \<and> represents UNIV h' (VRef 5) (JList three_places)
         \<and> represents UNIV h' (VRef 6) (JList out)
         \<and> ref_normalize_and_rank three_places_store_shifted (VRef 6) = Some (Inr (VRef 7, h2'))
         \<and> take 7 h2' = three_places_store_shifted
         \<and> represents UNIV h2' (VRef 6) (JList three_places)
         \<and> represents UNIV h2' (VRef 7) (JList out)"
    by (intro exI conjI)
  have "normalize_and_rank (places three_places_script_later) = Inr out"
    using out by (simp add: three_places_script_later_def)
  from t1 [THEN conjunct2, THEN conjunct2, THEN conjunct2, THEN conjunct2, THEN conjunct2,
      rule_format, OF this]
  have "\<exists>t. normalize_and_rank_stmts three_places_script_later = Inr t
         \<and> posts t = posts three_places_script_later
         \<and> rendered t = rendered three_places_script_later
         \<and> places t = JList three_places"
    by (simp add: three_places_script_later_def)
  with rep1 rep2 stores show ?thesis by (intro conjI)
qed

text \<open>
  C6, as amended. For every response whose status is exactly 200 and whose body decodes as
  JSON, \<open>search_places\<close> returns the decoded structure and no error, after one call of
  \<open>requests.post\<close>, whatever the structure holds: places under the \<open>places\<close> key, an empty
  list, or no \<open>places\<close> key at all. For every response with any other status, the other
  statuses of the success range among them, it returns no result and the request-failed
  message with that status and the body of the response.
\<close>

theorem success_on_200:
  "(\<forall>r parsed. net (places_request query api_key) = Returned r \<and> status_code r = 200
        \<and> response_json r = Decoded parsed \<longrightarrow>
      search_places net query api_key sent =
        (Inr (parsed, None), sent @ [places_request query api_key]))
   \<and> (\<forall>r. net (places_request query api_key) = Returned r \<and> status_code r \<noteq> 200 \<longrightarrow>
      search_places net query api_key sent =
        (Inr (JNull, Some (error_msg (status_code r) (response_text r))),
         sent @ [places_request query api_key]))"
proof (intro conjI allI impI)
  fix r parsed
  assume "net (places_request query api_key) = Returned r \<and> status_code r = 200
        \<and> response_json r = Decoded parsed"
  then show "search_places net query api_key sent =
        (Inr (parsed, None), sent @ [places_request query api_key])"
    by (simp add: search_places_Returned_200)
next
  fix r
  assume "net (places_request query api_key) = Returned r \<and> status_code r \<noteq> 200"
  then show "search_places net query api_key sent =
        (Inr (JNull, Some (error_msg (status_code r) (response_text r))),
         sent @ [places_request query api_key])"
    by (simp add: search_places_Returned_other)
qed

theorem success_on_200_witness:
  "const_network (Returned no_places_response) (places_request ''cafes'' ''key'')
     = Returned no_places_response
   \<and> status_code no_places_response = 200
   \<and> response_json no_places_response = Decoded (JDict [])
   \<and> search_places (const_network (Returned no_places_response)) ''cafes'' ''key'' []
     = (Inr (JDict [], None), [places_request ''cafes'' ''key''])
   \<and> const_network (Returned empty_places_response) (places_request ''cafes'' ''key'')
     = Returned empty_places_response
   \<and> status_code empty_places_response = 200
   \<and> response_json empty_places_response = Decoded (JDict [(''places'', JList [])])
   \<and> search_places (const_network (Returned empty_places_response)) ''cafes'' ''key'' []
     = (Inr (JDict [(''places'', JList [])], None), [places_request ''cafes'' ''key''])
   \<and> const_network (Returned created_response) (places_request ''cafes'' ''key'')
     = Returned created_response
   \<and> status_code created_response \<noteq> 200
   \<and> search_places (const_network (Returned created_response)) ''cafes'' ''key'' []
     = (Inr (JNull, Some (error_msg 201 ''{}'')), [places_request ''cafes'' ''key''])"
proof -
  have a: "const_network (Returned no_places_response) (places_request ''cafes'' ''key'')
     = Returned no_places_response \<and> status_code no_places_response = 200
     \<and> response_json no_places_response = Decoded (JDict [])"
    by (simp add: const_network_def no_places_response_def)
  have b: "const_network (Returned empty_places_response) (places_request ''cafes'' ''key'')
     = Returned empty_places_response \<and> status_code empty_places_response = 200
     \<and> response_json empty_places_response = Decoded (JDict [(''places'', JList [])])"
    by (simp add: const_network_def empty_places_response_def)
  have c: "const_network (Returned created_response) (places_request ''cafes'' ''key'')
     = Returned created_response \<and> status_code created_response \<noteq> 200"
    by (simp add: const_network_def created_response_def)
  note ta = success_on_200 [where net = "const_network (Returned no_places_response)"
      and query = "''cafes''" and api_key = "''key''" and sent = "[]",
      THEN conjunct1, rule_format, OF a]
  note tb = success_on_200 [where net = "const_network (Returned empty_places_response)"
      and query = "''cafes''" and api_key = "''key''" and sent = "[]",
      THEN conjunct1, rule_format, OF b]
  note tc = success_on_200 [where net = "const_network (Returned created_response)"
      and query = "''cafes''" and api_key = "''key''" and sent = "[]",
      THEN conjunct2, rule_format, OF c]
  have "search_places (const_network (Returned created_response)) ''cafes'' ''key'' []
     = (Inr (JNull, Some (error_msg 201 ''{}'')), [places_request ''cafes'' ''key''])"
    using tc by (simp add: created_response_def)
  with ta tb a b c show ?thesis by simp
qed

text \<open>
  C6 as stated fails: the status 201 lies in the success range, the body decodes, and the
  function returns a request failure.
\<close>

theorem success_range_counterexample:
  "200 \<le> status_code created_response \<and> status_code created_response < 300
   \<and> response_json created_response = Decoded (JDict [])
   \<and> search_places (const_network (Returned created_response)) ''cafes'' ''key'' []
     = (Inr (JNull, Some (''Request failed with status code: 201'' @ newline @ ''Error: {}'')),
        [places_request ''cafes'' ''key''])"
  by (simp add: search_places_def const_network_def created_response_def error_msg_def str_int_201)

text \<open>
  C7. For every response with a status other than 200, so for every status outside the success
  range, \<open>search_places\<close> returns no result and the request-failed message; for every
  \<open>RequestException\<close> of the call it returns no result and the message of the exception
  after \<open>An error occurred: \<close>. In both cases \<open>requests.post\<close> has been called once, and
  the function returns a pair (it does not raise). The request-failed message carries the
  status code and the body: equal messages have equal codes and equal bodies; the exception
  message carries the exception's; and no request-failed message is an exception message.
  Status 403 with body \<open>forbidden\<close> gives the message of Scenario D.
\<close>

theorem request_failures:
  "(\<forall>r. net (places_request query api_key) = Returned r \<and> status_code r \<noteq> 200 \<longrightarrow>
      search_places net query api_key sent =
        (Inr (JNull, Some (error_msg (status_code r) (response_text r))),
         sent @ [places_request query api_key]))
   \<and> (\<forall>e. net (places_request query api_key) = RequestException e \<longrightarrow>
      search_places net query api_key sent =
        (Inr (JNull, Some (exception_msg e)), sent @ [places_request query api_key]))
   \<and> (\<forall>c b c' b'. error_msg c b = error_msg c' b' \<longrightarrow> c = c' \<and> b = b')
   \<and> (\<forall>e e'. exception_msg e = exception_msg e' \<longrightarrow> e = e')
   \<and> (\<forall>c b e. error_msg c b \<noteq> exception_msg e)
   \<and> error_msg 403 ''forbidden''
       = ''Request failed with status code: 403'' @ newline @ ''Error: forbidden''"
proof (intro conjI allI impI)
  fix r assume "net (places_request query api_key) = Returned r \<and> status_code r \<noteq> 200"
  then show "search_places net query api_key sent =
        (Inr (JNull, Some (error_msg (status_code r) (response_text r))),
         sent @ [places_request query api_key])"
    by (simp add: search_places_Returned_other)
next
  fix e assume "net (places_request query api_key) = RequestException e"
  then show "search_places net query api_key sent =
        (Inr (JNull, Some (exception_msg e)), sent @ [places_request query api_key])"
    by (rule search_places_RequestException)
next
  fix c b c' b' assume "error_msg c b = error_msg c' b'"
  then have "c = c' \<and> b = b'" by (rule error_msg_inject)
  then show "c = c'" and "b = b'" by simp_all
next
  fix e e' assume "exception_msg e = exception_msg e'"
  then show "e = e'" by (rule exception_msg_inject)
next
  fix c b e show "error_msg c b \<noteq> exception_msg e"
    by (rule error_msg_neq_exception_msg)
next
  show "error_msg 403 ''forbidden''
       = ''Request failed with status code: 403'' @ newline @ ''Error: forbidden''"
    by (simp add: error_msg_def str_int_403)
qed

theorem request_failures_witness:
  "const_network (Returned forbidden_response) (places_request ''cafes'' ''key'')
     = Returned forbidden_response
   \<and> status_code forbidden_response \<noteq> 200
   \<and> search_places (const_network (Returned forbidden_response)) ''cafes'' ''key'' []
     = (Inr (JNull, Some (''Request failed with status code: 403'' @ newline @ ''Error: forbidden'')),
        [places_request ''cafes'' ''key''])
   \<and> search_places (const_network (RequestException ''Connection timed out'')) ''cafes'' ''key'' []
     = (Inr (JNull, Some ''An error occurred: Connection timed out''),
        [places_request ''cafes'' ''key''])"
proof -
  have h1: "const_network (Returned forbidden_response) (places_request ''cafes'' ''key'')
     = Returned forbidden_response \<and> status_code forbidden_response \<noteq> 200"
    by (simp add: const_network_def forbidden_response_def)
  have h2: "const_network (RequestException ''Connection timed out'') (places_request ''cafes'' ''key'')
     = RequestException ''Connection timed out''"
    by (simp add: const_network_def)
  note t = request_failures [of "const_network (Returned forbidden_response)" "''cafes''" "''key''" "[]"]
  note u = request_failures [of "const_network (RequestException ''Connection timed out'')"
      "''cafes''" "''key''" "[]"]
  from t [THEN conjunct1, rule_format, OF h1]
  have "search_places (const_network (Returned forbidden_response)) ''cafes'' ''key'' []
     = (Inr (JNull, Some (error_msg 403 ''forbidden'')), [places_request ''cafes'' ''key''])"
    by (simp add: forbidden_response_def)
  moreover from t have "error_msg 403 ''forbidden''
       = ''Request failed with status code: 403'' @ newline @ ''Error: forbidden''"
    by (elim conjE)
  moreover from u [THEN conjunct2, THEN conjunct1, rule_format, OF h2]
  have "search_places (const_network (RequestException ''Connection timed out'')) ''cafes'' ''key'' []
     = (Inr (JNull, Some ''An error occurred: Connection timed out''),
        [places_request ''cafes'' ''key''])"
    by (simp add: exception_msg_def)
  ultimately show ?thesis using h1 by simp
qed




end
